theory Spec2Isabelle
  imports Main "HOL-Library.Word"
begin

section \<open>The byte pipe of \<^verbatim>\<open>src/pipe.cc\<close>\<close>

text \<open>
  \<^verbatim>\<open>cb::Pipe\<close> owns one block of bytes and two offsets into it. Bytes are written at
  \<^verbatim>\<open>write_head\<close> and read from \<^verbatim>\<open>read_head\<close>; \<^verbatim>\<open>ensureCapacity\<close> makes room at the tail
  by packing or by moving the live bytes into a bigger block.

  The embedding keeps the C++ types: \<^verbatim>\<open>size_t\<close> is a 64-bit word whose arithmetic wraps,
  \<^verbatim>\<open>ssize_t\<close> is the same word read as two's complement, \<^verbatim>\<open>uint8_t\<close> is an 8-bit word.
  A member function takes the object and returns its outcome together with the object
  afterwards, since a C++ object outlives an exception thrown by one of its members.
  The valgrind hooks only annotate memory for a checker and are left out.
\<close>

type_synonym size_t = "64 word"
type_synonym ssize_t = "64 word"
type_synonym byte = "8 word"

subsection \<open>Outcomes\<close>

text \<open>
  Every \<^verbatim>\<open>throw std::logic_error\<close> of the file is one constructor of \<open>logic_error\<close>
  (the message text is dropped, the throw site is kept). \<open>Bad_alloc\<close> is the exception of
  \<^verbatim>\<open>new uint8_t[n]\<close>. \<open>Undefined_behaviour\<close> marks a memory access outside the block
  (\<^verbatim>\<open>memmove\<close>, \<^verbatim>\<open>std::copy\<close> or a view that leaves it), where C++ defines no result:
  the object paired with it is the one before the call and stands for no state.
\<close>

datatype logic_error =
    Buffer_locked
  | Pack_insufficient
  | Produced_exceeds
  | Consumed_exceeds
  | Already_locked
  | Not_locked

datatype failure = Logic_error logic_error | Bad_alloc | Undefined_behaviour

type_synonym 'a result = "failure + 'a"

subsection \<open>The object\<close>

text \<open>
  \<open>memory\<close> is the block held by the \<^verbatim>\<open>unique_ptr\<close>, \<open>buffer_size\<close> is \<^verbatim>\<open>buffer.size()\<close>
  (the view \<^verbatim>\<open>buffer\<close> always starts at \<^verbatim>\<open>memory.get()\<close>, so only its size is state).
\<close>

record pipe =
  memory :: "byte list"
  buffer_size :: size_t
  write_head :: size_t
  read_head :: size_t
  locked :: bool
  allocation_chunk_size :: size_t

definition defaultAllocationChunkSize :: size_t where
  "defaultAllocationChunkSize = 512"

definition calculateAllocationChunkSize :: "size_t \<Rightarrow> size_t" where
  "calculateAllocationChunkSize nbytes =
     (let chunks = nbytes div defaultAllocationChunkSize;
          chunks = (if nbytes mod defaultAllocationChunkSize \<noteq> 0 then chunks + 1 else chunks)
      in chunks * defaultAllocationChunkSize)"

text \<open>
  \<^verbatim>\<open>new uint8_t[n]\<close>. The allocator is a parameter \<open>heap\<close>: for a request of \<open>n\<close>
  bytes it either refuses (\<^verbatim>\<open>std::bad_alloc\<close>) or hands out a block whose bytes are
  indeterminate, given here by a function of the position. No object is larger than
  \<^verbatim>\<open>PTRDIFF_MAX\<close> bytes, so a bigger request always throws.
\<close>

type_synonym heap = "size_t \<Rightarrow> (nat \<Rightarrow> byte) option"

definition PTRDIFF_MAX :: size_t where
  "PTRDIFF_MAX = 2 ^ 63 - 1"

definition operator_new :: "heap \<Rightarrow> size_t \<Rightarrow> byte list result" where
  "operator_new heap n =
     (if n \<le> PTRDIFF_MAX then
        (case heap n of
           None \<Rightarrow> Inl Bad_alloc
         | Some junk \<Rightarrow> Inr (map junk [0 ..< unat n]))
      else Inl Bad_alloc)"

text \<open>
  Modelled from the spec: the in-class initialisers of \<^verbatim>\<open>write_head\<close>, \<^verbatim>\<open>read_head\<close> and
  \<^verbatim>\<open>locked\<close> stand in \<^verbatim>\<open>platform/pipe.h\<close>, which is not among the sources. The spec
  has "after construction, read_offset = write_offset = 0" and the initial state
  unlocked.
\<close>

definition initial_write_head :: size_t where
  "initial_write_head = 0"

definition initial_read_head :: size_t where
  "initial_read_head = 0"

definition initial_locked :: bool where
  "initial_locked = False"

text \<open>
  The constructor. The member initialiser computes \<^verbatim>\<open>allocation_chunk_size\<close>, the body
  allocates \<^verbatim>\<open>size\<close> bytes and points \<^verbatim>\<open>buffer\<close> at them.
\<close>

definition Pipe :: "heap \<Rightarrow> size_t \<Rightarrow> pipe result" where
  "Pipe heap sz =
     (case operator_new heap sz of
        Inl e \<Rightarrow> Inl e
      | Inr mem \<Rightarrow>
          Inr \<lparr> memory = mem,
                buffer_size = sz,
                write_head = initial_write_head,
                read_head = initial_read_head,
                locked = initial_locked,
                allocation_chunk_size =
                  max (calculateAllocationChunkSize sz) defaultAllocationChunkSize \<rparr>)"

subsection \<open>Views\<close>

text \<open>
  Modelled from the spec: \<^verbatim>\<open>getAvailableReadSpace\<close>, \<^verbatim>\<open>getAvailableWriteSpace\<close>, \<^verbatim>\<open>rsize\<close>
  and \<^verbatim>\<open>wsize\<close> are defined in \<^verbatim>\<open>platform/pipe.h\<close>, which is not among the sources. The
  spec gives the readable window as \<open>[read_offset, write_offset)\<close> and the writable tail
  as \<open>[write_offset, capacity)\<close>, each a pointer and a length, and the tail space as
  \<open>capacity - write_offset\<close>. The lengths are \<^verbatim>\<open>size_t\<close> differences.
\<close>

definition rsize :: "pipe \<Rightarrow> size_t" where
  "rsize p = write_head p - read_head p"

definition wsize :: "pipe \<Rightarrow> size_t" where
  "wsize p = buffer_size p - write_head p"

text \<open>
  \<open>slice off len mem\<close> is the bytes of a view of length \<open>len\<close> at offset \<open>off\<close>, and
  \<open>within off len mem\<close> says that the view lies inside the block.
\<close>

definition slice :: "size_t \<Rightarrow> size_t \<Rightarrow> byte list \<Rightarrow> byte list" where
  "slice off len mem = take (unat len) (drop (unat off) mem)"

definition within :: "size_t \<Rightarrow> size_t \<Rightarrow> byte list \<Rightarrow> bool" where
  "within off len mem \<longleftrightarrow> unat off + unat len \<le> length mem"

definition getAvailableReadSpace :: "pipe \<Rightarrow> byte list" where
  "getAvailableReadSpace p = slice (read_head p) (rsize p) (memory p)"

definition getAvailableWriteSpace :: "pipe \<Rightarrow> byte list" where
  "getAvailableWriteSpace p = slice (write_head p) (wsize p) (memory p)"

text \<open>\<^verbatim>\<open>Pipe::empty\<close> and \<^verbatim>\<open>Pipe::full\<close> (the plain names are taken in HOL).\<close>

definition empty_pipe :: "pipe \<Rightarrow> bool" where
  "empty_pipe p \<longleftrightarrow> read_head p = write_head p"

definition full_pipe :: "pipe \<Rightarrow> bool" where
  "full_pipe p \<longleftrightarrow> write_head p = buffer_size p"

subsection \<open>Marking bytes produced and consumed\<close>

definition produced :: "pipe \<Rightarrow> size_t \<Rightarrow> unit result \<times> pipe" where
  "produced p nbytes =
     (if locked p then (Inl (Logic_error Buffer_locked), p)
      else if write_head p + nbytes > buffer_size p
        then (Inl (Logic_error Produced_exceeds), p)
      else (Inr (), p\<lparr>write_head := write_head p + nbytes\<rparr>))"

definition consumed :: "pipe \<Rightarrow> size_t \<Rightarrow> unit result \<times> pipe" where
  "consumed p nbytes =
     (if locked p then (Inl (Logic_error Buffer_locked), p)
      else if read_head p + nbytes > write_head p
        then (Inl (Logic_error Consumed_exceeds), p)
      else
        (let p1 = p\<lparr>read_head := read_head p + nbytes\<rparr>
         in if read_head p1 = write_head p1
            then (Inr (), p1\<lparr>write_head := 0, read_head := 0\<rparr>)
            else (Inr (), p1)))"

subsection \<open>Locking\<close>

definition lock :: "pipe \<Rightarrow> unit result \<times> pipe" where
  "lock p =
     (if locked p then (Inl (Logic_error Already_locked), p)
      else (Inr (), p\<lparr>locked := True\<rparr>))"

definition unlock :: "pipe \<Rightarrow> unit result \<times> pipe" where
  "unlock p =
     (if \<not> locked p then (Inl (Logic_error Not_locked), p)
      else (Inr (), p\<lparr>locked := False\<rparr>))"

subsection \<open>Packing and clearing\<close>

text \<open>
  \<^verbatim>\<open>memmove(buffer.data(), buffer.data() + read_head, write_head - read_head)\<close> reads
  \<open>write_head - read_head\<close> bytes from offset \<open>read_head\<close> and stores them from offset 0;
  the bytes behind them keep their values. The source range must lie in the block.
\<close>

definition memmove_front :: "size_t \<Rightarrow> size_t \<Rightarrow> byte list \<Rightarrow> byte list" where
  "memmove_front off len mem = slice off len mem @ drop (unat len) mem"

definition pack :: "pipe \<Rightarrow> bool result \<times> pipe" where
  "pack p =
     (if locked p then (Inl (Logic_error Buffer_locked), p)
      else if read_head p = write_head p then
        (let p1 = p\<lparr>write_head := 0, read_head := 0\<rparr> in (Inr (empty_pipe p1), p1))
      else if \<not> within (read_head p) (write_head p - read_head p) (memory p)
        then (Inl Undefined_behaviour, p)
      else
        (let p1 = p\<lparr>memory := memmove_front (read_head p) (write_head p - read_head p) (memory p),
                     write_head := write_head p - read_head p,
                     read_head := 0\<rparr>
         in (Inr (empty_pipe p1), p1)))"

definition clear :: "pipe \<Rightarrow> unit result \<times> pipe" where
  "clear p =
     (if locked p then (Inl (Logic_error Buffer_locked), p)
      else (Inr (), p\<lparr>read_head := 0, write_head := 0\<rparr>))"

subsection \<open>Capacity negotiation\<close>

text \<open>
  The search loop of \<^verbatim>\<open>ensureCapacity\<close>,
  \<^verbatim>\<open>while (count * allocation_chunk_size + tail_space + read_head < nbytes) ++count;\<close>
  in \<^verbatim>\<open>size_t\<close> arithmetic. Nothing bounds the number of rounds, so the loop is a partial
  function: \<open>None\<close> is a loop that never leaves.
\<close>

partial_function (option) count_loop ::
  "size_t \<Rightarrow> size_t \<Rightarrow> size_t \<Rightarrow> size_t \<Rightarrow> size_t \<Rightarrow> size_t option" where
  "count_loop chunk tail_space rh nbytes count =
     (if count * chunk + tail_space + rh < nbytes
      then count_loop chunk tail_space rh nbytes (count + 1)
      else Some count)"

text \<open>
  \<^verbatim>\<open>std::copy(memory.get() + read_head, memory.get() + write_head, nmem.get())\<close>: the
  source range must be a range of the old block and must fit the new one.
\<close>

definition copy_ok :: "pipe \<Rightarrow> byte list \<Rightarrow> bool" where
  "copy_ok p nmem \<longleftrightarrow>
     read_head p \<le> write_head p \<and> unat (write_head p) \<le> length (memory p) \<and>
     unat (write_head p - read_head p) \<le> length nmem"

definition copy_live :: "pipe \<Rightarrow> byte list \<Rightarrow> byte list" where
  "copy_live p nmem =
     slice (read_head p) (write_head p - read_head p) (memory p)
       @ drop (unat (write_head p - read_head p)) nmem"

text \<open>
  The rest of \<^verbatim>\<open>ensureCapacity\<close> once the count is found: allocate \<open>nsize\<close> bytes, copy the
  live bytes, swap the blocks, point \<^verbatim>\<open>buffer\<close> at the new one, move the offsets and return
  \<^verbatim>\<open>wsize()\<close>. If \<^verbatim>\<open>new\<close> throws, nothing has been assigned yet.
\<close>

definition grow :: "heap \<Rightarrow> pipe \<Rightarrow> size_t \<Rightarrow> size_t result \<times> pipe" where
  "grow heap p count =
     (let nsize = buffer_size p + count * allocation_chunk_size p
      in case operator_new heap nsize of
           Inl e \<Rightarrow> (Inl e, p)
         | Inr nmem \<Rightarrow>
             if \<not> copy_ok p nmem then (Inl Undefined_behaviour, p)
             else
               (let p1 = p\<lparr>memory := copy_live p nmem,
                            buffer_size := nsize,
                            write_head := write_head p - read_head p,
                            read_head := 0\<rparr>
                in (Inr (wsize p1), p1)))"

definition ensureCapacity ::
  "heap \<Rightarrow> pipe \<Rightarrow> size_t \<Rightarrow> (size_t result \<times> pipe) option" where
  "ensureCapacity heap p nbytes =
     (if locked p then Some (Inl (Logic_error Buffer_locked), p)
      else
        (let tail_space = buffer_size p - write_head p
         in if tail_space \<ge> nbytes then Some (Inr (wsize p), p)
            else if nbytes \<le> tail_space + read_head p then
              (case pack p of
                 (Inl e, p1) \<Rightarrow> Some (Inl e, p1)
               | (Inr _, p1) \<Rightarrow>
                   (let ret = wsize p1
                    in if ret < nbytes then Some (Inl (Logic_error Pack_insufficient), p1)
                       else Some (Inr ret, p1)))
            else
              (case count_loop (allocation_chunk_size p) tail_space (read_head p) nbytes 1 of
                 None \<Rightarrow> None
               | Some count \<Rightarrow> Some (grow heap p count))))"

subsection \<open>Zero-copy access\<close>

text \<open>
  The callbacks are functions of the view they are handed. A consumer returns its
  \<^verbatim>\<open>ssize_t\<close>; a producer also returns the bytes it stored, which replace the front of the
  view (it is handed a pointer and a length and stores inside them). Both overloads of
  \<^verbatim>\<open>produce\<close> and of \<^verbatim>\<open>consume\<close> have the same body, so each is modelled once. A view
  that leaves the block is an access outside it.
\<close>

definition store_at :: "size_t \<Rightarrow> byte list \<Rightarrow> byte list \<Rightarrow> byte list \<Rightarrow> byte list" where
  "store_at off avail written mem =
     take (unat off) mem
       @ take (length avail) written @ drop (length written) avail
       @ drop (unat off + length avail) mem"

definition consume :: "(byte list \<Rightarrow> ssize_t) \<Rightarrow> pipe \<Rightarrow> ssize_t result \<times> pipe" where
  "consume consumer p =
     (if locked p then (Inl (Logic_error Buffer_locked), p)
      else if \<not> within (read_head p) (rsize p) (memory p) then (Inl Undefined_behaviour, p)
      else
        (let avail = getAvailableReadSpace p;
             ret = consumer avail
         in if 0 <s ret then
              (case consumed p ret of
                 (Inl e, p1) \<Rightarrow> (Inl e, p1)
               | (Inr _, p1) \<Rightarrow> (Inr ret, p1))
            else (Inr ret, p)))"

definition produce ::
  "(byte list \<Rightarrow> byte list \<times> ssize_t) \<Rightarrow> pipe \<Rightarrow> ssize_t result \<times> pipe" where
  "produce producer p =
     (if locked p then (Inl (Logic_error Buffer_locked), p)
      else if \<not> within (write_head p) (wsize p) (memory p) then (Inl Undefined_behaviour, p)
      else
        (let avail = getAvailableWriteSpace p;
             (written, ret) = producer avail;
             p1 = p\<lparr>memory := store_at (write_head p) avail written (memory p)\<rparr>
         in if 0 <s ret then
              (case produced p1 ret of
                 (Inl e, p2) \<Rightarrow> (Inl e, p2)
               | (Inr _, p2) \<Rightarrow> (Inr ret, p2))
            else (Inr ret, p1)))"

subsection \<open>Well-formed windows\<close>

text \<open>
  The invariants of the data model, on the C++ state. \<open>bounds_ok\<close> is
  \<open>0 \<le> read_offset \<le> write_offset \<le> capacity\<close>, \<open>empty_at_start\<close> is the reset policy,
  \<open>block_ok\<close> says that \<^verbatim>\<open>buffer\<close> spans the whole block that \<^verbatim>\<open>new\<close> returned, and
  \<open>chunk_ok\<close> is the range of an \<^verbatim>\<open>allocation_chunk_size\<close> that the constructor computes.
\<close>

definition bounds_ok :: "pipe \<Rightarrow> bool" where
  "bounds_ok p \<longleftrightarrow> read_head p \<le> write_head p \<and> write_head p \<le> buffer_size p"

definition empty_at_start :: "pipe \<Rightarrow> bool" where
  "empty_at_start p \<longleftrightarrow>
     (read_head p = write_head p \<longrightarrow> read_head p = 0 \<and> write_head p = 0)"

definition block_ok :: "pipe \<Rightarrow> bool" where
  "block_ok p \<longleftrightarrow>
     length (memory p) = unat (buffer_size p) \<and> buffer_size p \<le> PTRDIFF_MAX"

definition chunk_ok :: "pipe \<Rightarrow> bool" where
  "chunk_ok p \<longleftrightarrow>
     defaultAllocationChunkSize \<le> allocation_chunk_size p \<and>
     allocation_chunk_size p \<le> 2 ^ 63"

definition pipe_inv :: "pipe \<Rightarrow> bool" where
  "pipe_inv p \<longleftrightarrow> bounds_ok p \<and> empty_at_start p \<and> block_ok p \<and> chunk_ok p"

subsection \<open>Sequences of calls\<close>

text \<open>
  One constructor per public member function that changes the object. \<open>precondition\<close>
  is what the interface asks of the caller before the call: the window is unlocked
  (locked, for \<^verbatim>\<open>unlock\<close>), and \<^verbatim>\<open>produced(n)\<close> and \<^verbatim>\<open>consumed(n)\<close> stay inside the writable
  tail and the readable window, as numbers. \<open>call_pipe\<close> runs the call and keeps whether
  it threw; \<open>None\<close> is a call that does not return.
\<close>

datatype call =
    EnsureCapacity size_t
  | Produced size_t
  | Consumed size_t
  | Pack
  | Clear
  | Lock
  | Unlock
  | Produce "byte list \<Rightarrow> byte list \<times> ssize_t"
  | Consume "byte list \<Rightarrow> ssize_t"

fun precondition :: "pipe \<Rightarrow> call \<Rightarrow> bool" where
  "precondition p (EnsureCapacity n) \<longleftrightarrow> \<not> locked p"
| "precondition p (Produced n) \<longleftrightarrow>
     \<not> locked p \<and> unat (write_head p) + unat n \<le> unat (buffer_size p)"
| "precondition p (Consumed n) \<longleftrightarrow>
     \<not> locked p \<and> unat (read_head p) + unat n \<le> unat (write_head p)"
| "precondition p Pack \<longleftrightarrow> \<not> locked p"
| "precondition p Clear \<longleftrightarrow> \<not> locked p"
| "precondition p Lock \<longleftrightarrow> \<not> locked p"
| "precondition p Unlock \<longleftrightarrow> locked p"
| "precondition p (Produce producer) \<longleftrightarrow> \<not> locked p"
| "precondition p (Consume consumer) \<longleftrightarrow> \<not> locked p"

definition outcome :: "'a result \<times> pipe \<Rightarrow> failure option \<times> pipe" where
  "outcome rp = (case rp of (Inl e, p) \<Rightarrow> (Some e, p) | (Inr _, p) \<Rightarrow> (None, p))"

fun call_pipe :: "heap \<Rightarrow> pipe \<Rightarrow> call \<Rightarrow> (failure option \<times> pipe) option" where
  "call_pipe heap p (EnsureCapacity n) = map_option outcome (ensureCapacity heap p n)"
| "call_pipe heap p (Produced n) = Some (outcome (produced p n))"
| "call_pipe heap p (Consumed n) = Some (outcome (consumed p n))"
| "call_pipe heap p Pack = Some (outcome (pack p))"
| "call_pipe heap p Clear = Some (outcome (clear p))"
| "call_pipe heap p Lock = Some (outcome (lock p))"
| "call_pipe heap p Unlock = Some (outcome (unlock p))"
| "call_pipe heap p (Produce producer) = Some (outcome (produce producer p))"
| "call_pipe heap p (Consume consumer) = Some (outcome (consume consumer p))"

text \<open>
  \<open>reachable sz p\<close>: the window \<open>p\<close> was constructed with the requested size \<open>sz\<close> and
  then used through calls whose preconditions held. A call that throws leaves a state
  too (the object is still there); a call that runs into undefined behaviour leaves
  none.
\<close>

inductive reachable :: "size_t \<Rightarrow> pipe \<Rightarrow> bool" for sz :: size_t where
  constructed: "Pipe heap sz = Inr p \<Longrightarrow> reachable sz p"
| called:
    "reachable sz p \<Longrightarrow> precondition p c \<Longrightarrow> call_pipe heap p c = Some (r, p') \<Longrightarrow>
     r \<noteq> Some Undefined_behaviour \<Longrightarrow> reachable sz p'"

subsection \<open>Collaborators used in the statements\<close>

text \<open>
  \<open>zero_heap\<close> serves every request with a block of zero bytes (\<open>zero_junk\<close>);
  \<open>small_heap\<close> serves the requests of at most 1024 bytes and refuses the others.
  \<open>write_bytes bs\<close> is a producer that stores \<open>bs\<close> at the front of the view and returns
  their number. \<open>handed v k\<close> is a consumer that returns \<open>k\<close> when the view it is handed is
  exactly \<open>v\<close>, and 0 (nothing consumed) otherwise.
\<close>

definition zero_junk :: "nat \<Rightarrow> byte" where
  "zero_junk i = 0"

definition zero_heap :: heap where
  "zero_heap n = Some zero_junk"

definition small_heap :: heap where
  "small_heap n = (if n \<le> 1024 then Some zero_junk else None)"

definition write_bytes :: "byte list \<Rightarrow> byte list \<Rightarrow> byte list \<times> ssize_t" where
  "write_bytes bs view = (bs, of_nat (length bs))"

definition handed :: "byte list \<Rightarrow> ssize_t \<Rightarrow> byte list \<Rightarrow> ssize_t" where
  "handed v k view = (if view = v then k else 0)"

text \<open>
  The words of the spec for the growth unit and for the count of chunks:
  \<open>least_multiple u n m\<close> says that \<open>m\<close> is the smallest multiple of \<open>u\<close> that is at least
  \<open>n\<close>, \<open>least_count u t n c\<close> that \<open>c\<close> is the smallest count with \<open>c * u + t \<ge> n\<close>.
\<close>

definition least_multiple :: "nat \<Rightarrow> nat \<Rightarrow> nat \<Rightarrow> bool" where
  "least_multiple u n m \<longleftrightarrow> u dvd m \<and> n \<le> m \<and> (\<forall>m'. u dvd m' \<and> n \<le> m' \<longrightarrow> m \<le> m')"

definition least_count :: "nat \<Rightarrow> nat \<Rightarrow> nat \<Rightarrow> nat \<Rightarrow> bool" where
  "least_count u t n c \<longleftrightarrow> n \<le> c * u + t \<and> (\<forall>c'. n \<le> c' * u + t \<longrightarrow> c \<le> c')"

subsection \<open>Example windows\<close>

text \<open>
  A four-byte window holding the two unread bytes 20 and 30, and the same window locked.
  \<open>fresh_window\<close> is what \<^verbatim>\<open>Pipe(4)\<close> constructs, \<open>used_window\<close> is that window after
  three bytes were produced through the writable view and one was consumed, and
  \<open>drained_window\<close> is the used window after its two unread bytes were consumed as well.
  \<open>full_window\<close> is what \<^verbatim>\<open>Pipe(512)\<close> constructs, after \<^verbatim>\<open>produced(512)\<close>; \<open>marked_window\<close>
  is what \<^verbatim>\<open>Pipe(16)\<close> constructs, after \<^verbatim>\<open>produced(10)\<close> and \<^verbatim>\<open>consumed(3)\<close>.
\<close>

definition example_window :: pipe where
  "example_window =
     \<lparr> memory = [10, 20, 30, 40], buffer_size = 4, write_head = 3, read_head = 1,
       locked = False, allocation_chunk_size = 512 \<rparr>"

definition locked_window :: pipe where
  "locked_window = example_window\<lparr>locked := True\<rparr>"

definition fresh_window :: pipe where
  "fresh_window = projr (Pipe zero_heap 4)"

definition used_window :: pipe where
  "used_window = snd (consumed (snd (produce (write_bytes [20, 30, 40]) fresh_window)) 1)"

definition drained_window :: pipe where
  "drained_window = snd (consumed used_window 2)"

definition full_window :: pipe where
  "full_window = snd (produced (projr (Pipe zero_heap 512)) 512)"

definition marked_window :: pipe where
  "marked_window = snd (consumed (snd (produced (projr (Pipe zero_heap 16)) 10)) 3)"

section \<open>Properties\<close>

subsection \<open>The search loop\<close>

text \<open>
  A loop that returns has tested every count from its start up to the result and found
  the comparison true at each of them and false at the result; conversely such a run of
  tests makes the loop return. A comparison that holds for every count keeps it from
  returning.
\<close>

lemma word_shift: "(k :: 'a::len word) + 1 + of_nat i = k + of_nat (Suc i)"
  by simp

lemma one_plus_of_nat: "(1 :: size_t) + of_nat j = of_nat (Suc j)"
  by simp

lemma count_loop_sound:
  assumes "count_loop ch ts rh n k = Some c"
  shows "\<exists>m. c = k + of_nat m \<and> (\<forall>j<m. (k + of_nat j) * ch + ts + rh < n) \<and>
             \<not> (c * ch + ts + rh < n)"
proof (rule count_loop.raw_induct
    [where P = "\<lambda>ch ts rh n k c. \<exists>m. c = k + of_nat m \<and>
                  (\<forall>j<m. (k + of_nat j) * ch + ts + rh < n) \<and> \<not> (c * ch + ts + rh < n)"],
    goal_cases)
  case (1 f ch ts rh n k c)
  show ?case
  proof (cases "k * ch + ts + rh < n")
    case True
    with 1(2) have "f ch ts rh n (k + 1) = Some c" by simp
    from 1(1)[OF this] obtain m where m: "c = k + 1 + of_nat m"
      "\<forall>j<m. (k + 1 + of_nat j) * ch + ts + rh < n" "\<not> (c * ch + ts + rh < n)" by blast
    have "\<forall>j<Suc m. (k + of_nat j) * ch + ts + rh < n"
    proof (intro allI impI)
      fix j assume "j < Suc m"
      show "(k + of_nat j) * ch + ts + rh < n"
      proof (cases j)
        case 0 then show ?thesis using True by simp
      next
        case (Suc i)
        with \<open>j < Suc m\<close> have "i < m" by simp
        with m(2) have "(k + 1 + of_nat i) * ch + ts + rh < n" by blast
        then show ?thesis unfolding Suc word_shift .
      qed
    qed
    moreover have "c = k + of_nat (Suc m)" using m(1) unfolding word_shift .
    ultimately show ?thesis using m(3) by blast
  next
    case False
    with 1(2) have "c = k" by simp
    then show ?thesis using False by (intro exI[of _ 0]) simp
  qed
next
  case 2
  show ?case by (rule assms)
qed

lemma count_loop_complete:
  "(\<forall>j<m. (k + of_nat j) * ch + ts + rh < n) \<Longrightarrow>
   \<not> ((k + of_nat m) * ch + ts + rh < n) \<Longrightarrow>
   count_loop ch ts rh n k = Some (k + of_nat m)"
proof (induction m arbitrary: k)
  case 0
  then show ?case by (subst count_loop.simps) simp
next
  case (Suc m)
  have k: "k * ch + ts + rh < n" using Suc.prems(1)[rule_format, of 0] by simp
  have "\<forall>j<m. (k + 1 + of_nat j) * ch + ts + rh < n"
    unfolding word_shift using Suc.prems(1) by blast
  moreover have "\<not> ((k + 1 + of_nat m) * ch + ts + rh < n)"
    unfolding word_shift using Suc.prems(2) .
  ultimately have "count_loop ch ts rh n (k + 1) = Some (k + 1 + of_nat m)"
    by (rule Suc.IH)
  then have "count_loop ch ts rh n (k + 1) = Some (k + of_nat (Suc m))"
    unfolding word_shift .
  then show ?case using k by (subst count_loop.simps) (simp only: if_True)
qed

lemma count_loop_diverges:
  assumes "\<And>c. c * ch + ts + rh < n"
  shows "count_loop ch ts rh n k = None"
proof (cases "count_loop ch ts rh n k")
  case None then show ?thesis .
next
  case (Some c)
  from count_loop_sound[OF this] assms show ?thesis by blast
qed

lemma even_below_max:
  fixes c :: size_t
  assumes "even ch" "even (ts + rh)"
  shows "c * ch + ts + rh < - 1"
proof -
  have "even (c * ch + (ts + rh))" using assms by simp
  then have "even (c * ch + ts + rh)" by (simp only: add.assoc)
  moreover have "odd (- 1 :: size_t)" by simp
  ultimately have "c * ch + ts + rh \<noteq> - 1" by metis
  then show ?thesis by (rule word_order.not_eq_extremum[THEN iffD1])
qed

lemma loop_value:
  fixes ch ts rh :: size_t
  assumes "c * unat ch + unat ts + unat rh < 2 ^ 64"
  shows "unat (of_nat c * ch + ts + rh) = c * unat ch + unat ts + unat rh"
proof -
  have "of_nat c * ch + ts + rh = (of_nat (c * unat ch + unat ts + unat rh) :: size_t)"
    by simp
  then have "unat (of_nat c * ch + ts + rh) = (c * unat ch + unat ts + unat rh) mod 2 ^ 64"
    by (simp only: unat_of_nat) simp
  with assms show ?thesis by simp
qed

lemma no_wrap_prefix:
  fixes ch ts rh n :: size_t
  assumes u: "unat ch \<le> 2 ^ 63" and t: "unat ts + unat rh < 2 ^ 63" and N: "unat n < 2 ^ 63"
    and below: "\<forall>j<m. (1 + of_nat j) * ch + ts + rh < n"
  shows "j \<le> m \<Longrightarrow> Suc j * unat ch + unat ts + unat rh < 2 ^ 64"
proof (induction j)
  case 0
  from u t show ?case by simp
next
  case (Suc j)
  then have ih: "Suc j * unat ch + unat ts + unat rh < 2 ^ 64" and jm: "j < m" by simp_all
  from below jm have "of_nat (Suc j) * ch + ts + rh < n"
    unfolding one_plus_of_nat by blast
  then have "unat (of_nat (Suc j) * ch + ts + rh) < unat n" by (simp only: word_less_nat_alt)
  with loop_value[OF ih] have "Suc j * unat ch + unat ts + unat rh < unat n" by simp
  with N have "Suc j * unat ch + unat ts + unat rh < 2 ^ 63" by simp
  with u have "Suc j * unat ch + unat ts + unat rh + unat ch < 2 ^ 63 + 2 ^ 63" by linarith
  then show ?case by simp
qed

subsection \<open>Numbers behind the words\<close>

lemma positive_ssize:
  assumes "0 <s (k :: ssize_t)"
  shows "unat k < 2 ^ 63"
proof -
  from assms have pos: "0 < sint k" by (simp add: word_sless_alt)
  have lt: "sint k < 2 ^ 63" using sint_less[of k] by simp
  then have "sint k < 2 ^ 64" by simp
  with pos have "take_bit 64 (sint k) = sint k" by (simp add: take_bit_int_eq_self)
  then have "uint k = sint k" using uint_sint[of k] by simp
  with lt have "uint k < 2 ^ 63" by simp
  then have "int (unat k) < int (2 ^ 63)" by (simp only: uint_nat of_nat_power of_nat_numeral)
  then show ?thesis by (simp only: of_nat_less_iff)
qed

lemma ssize_positive:
  assumes "0 < unat (k :: ssize_t)" "unat k < 2 ^ 63"
  shows "0 <s k"
proof -
  from assms(2) have "int (unat k) < int (2 ^ 63)" by (simp only: of_nat_less_iff)
  then have lt: "uint k < 2 ^ 63" by (simp only: uint_nat of_nat_power of_nat_numeral)
  have "- (2 ^ 63) \<le> uint k" by (rule order_trans[of _ 0]) simp_all
  then have "signed_take_bit 63 (uint k) = uint k" using lt by (rule signed_take_bit_int_eq_self)
  then have "sint k = uint k" using sint_uint[of k] by simp
  moreover from assms(1) have "0 < uint k" by (simp only: uint_nat of_nat_0_less_iff)
  ultimately show ?thesis by (simp add: word_sless_alt)
qed

lemma unat_PTRDIFF_MAX: "unat PTRDIFF_MAX = 2 ^ 63 - 1"
  by (simp add: PTRDIFF_MAX_def)

lemma unat_max: "unat (max a b) = max (unat a) (unat b)" for a b :: size_t
  by (simp add: max_def word_le_nat_alt)

lemma unat_of_nat_length:
  assumes "length (bs :: byte list) \<le> unat (x :: size_t)"
  shows "unat (of_nat (length bs) :: size_t) = length bs"
  using assms by (rule le_unat_uoi)

lemma wf_nat:
  assumes "bounds_ok p" "block_ok p"
  shows "unat (read_head p) \<le> unat (write_head p)"
    and "unat (write_head p) \<le> unat (buffer_size p)"
    and "length (memory p) = unat (buffer_size p)"
    and "unat (buffer_size p) < 2 ^ 63"
    and "unat (rsize p) = unat (write_head p) - unat (read_head p)"
    and "unat (wsize p) = unat (buffer_size p) - unat (write_head p)"
proof -
  from assms show a: "unat (read_head p) \<le> unat (write_head p)"
    and b: "unat (write_head p) \<le> unat (buffer_size p)"
    and "length (memory p) = unat (buffer_size p)"
    by (simp_all add: bounds_ok_def block_ok_def word_le_nat_alt)
  from assms(2) have "unat (buffer_size p) \<le> 2 ^ 63 - 1"
    unfolding block_ok_def word_le_nat_alt unat_PTRDIFF_MAX by simp
  then show "unat (buffer_size p) < 2 ^ 63" by simp
  from a show "unat (rsize p) = unat (write_head p) - unat (read_head p)"
    by (simp add: rsize_def unat_sub word_le_nat_alt)
  from b show "unat (wsize p) = unat (buffer_size p) - unat (write_head p)"
    by (simp add: wsize_def unat_sub word_le_nat_alt)
qed

lemma views_within:
  assumes "bounds_ok p" "block_ok p"
  shows "within (read_head p) (rsize p) (memory p)"
    and "within (write_head p) (wsize p) (memory p)"
    and "length (getAvailableReadSpace p) = unat (rsize p)"
    and "length (getAvailableWriteSpace p) = unat (wsize p)"
  using wf_nat[OF assms]
  by (simp_all add: within_def getAvailableReadSpace_def getAvailableWriteSpace_def slice_def)

lemma tail_plus_read:
  assumes "bounds_ok p" "block_ok p"
  shows "unat (buffer_size p - write_head p + read_head p) = unat (wsize p) + unat (read_head p)"
    and "unat (wsize p) + unat (read_head p) + unat (rsize p) = unat (buffer_size p)"
proof -
  note n = wf_nat[OF assms]
  from n show t: "unat (wsize p) + unat (read_head p) + unat (rsize p) = unat (buffer_size p)"
    by simp
  with n(4) have "unat (wsize p) + unat (read_head p) < 2 ^ 64" by simp
  then show "unat (buffer_size p - write_head p + read_head p) = unat (wsize p) + unat (read_head p)"
    using unat_add_lem[of "wsize p" "read_head p"] by (simp add: wsize_def)
qed

lemma length_store_at:
  assumes "unat off + length avail \<le> length mem"
  shows "length (store_at off avail written mem) = length mem"
  using assms by (simp add: store_at_def)

subsection \<open>The growth unit\<close>

lemma least_multiple_round_up:
  "least_multiple 512 x ((x div 512 + (if x mod 512 \<noteq> 0 then 1 else 0)) * 512)"
proof -
  define q r where "q = x div 512" and "r = x mod 512"
  have x: "x = q * 512 + r" and r: "r < 512" by (simp_all add: q_def r_def)
  define m where "m = (q + (if r \<noteq> 0 then 1 else 0)) * 512"
  have "512 dvd m" by (simp add: m_def)
  moreover have "x \<le> m" using x r by (simp add: m_def)
  moreover have "m \<le> m'" if "512 dvd m' \<and> x \<le> m'" for m'
  proof -
    from that obtain j where j: "m' = 512 * j" by (auto simp add: dvd_def)
    show ?thesis
    proof (cases "r = 0")
      case True
      with that x show ?thesis by (simp add: m_def)
    next
      case False
      with that x j have "q * 512 < 512 * j" by simp
      then have "q < j" by simp
      then have "q + 1 \<le> j" by simp
      then have "(q + 1) * 512 \<le> j * 512" by (rule mult_le_mono1)
      with False j show ?thesis by (simp add: m_def)
    qed
  qed
  ultimately show ?thesis unfolding least_multiple_def m_def q_def r_def by blast
qed

lemma calc_nat:
  assumes "unat sz < 2 ^ 63"
  shows "unat (calculateAllocationChunkSize sz) =
           (unat sz div 512 + (if unat sz mod 512 \<noteq> 0 then 1 else 0)) * 512"
proof -
  define q where "q = sz div 512"
  have uq: "unat q = unat sz div 512" by (simp add: q_def unat_div)
  have um: "sz mod 512 = 0 \<longleftrightarrow> unat sz mod 512 = 0"
    by (simp add: word_unat_eq_iff unat_mod)
  from assms uq have qb: "unat q < 2 ^ 54" by simp
  then have "unat q + unat (1 :: size_t) < 2 ^ 64" by simp
  then have uq1: "unat (q + 1) = unat q + 1"
    using unat_add_lem[of q 1] by simp
  show ?thesis
  proof (cases "sz mod 512 = 0")
    case True
    then have c: "calculateAllocationChunkSize sz = q * 512"
      by (simp add: calculateAllocationChunkSize_def defaultAllocationChunkSize_def q_def)
    from qb have "unat q * unat (512 :: size_t) < 2 ^ 64" by simp
    then have "unat (q * 512) = unat q * 512" using unat_mult_lem[of q 512] by simp
    with c uq True um show ?thesis by simp
  next
    case False
    then have c: "calculateAllocationChunkSize sz = (q + 1) * 512"
      by (simp add: calculateAllocationChunkSize_def defaultAllocationChunkSize_def q_def)
    from qb uq1 have "unat (q + 1) * unat (512 :: size_t) < 2 ^ 64" by simp
    then have "unat ((q + 1) * 512) = unat (q + 1) * 512"
      using unat_mult_lem[of "q + 1" 512] by simp
    with c uq uq1 False um show ?thesis by simp
  qed
qed

subsection \<open>Single operations\<close>

lemma pack_wsize:
  assumes "pack p = (Inr b, p1)"
  shows "wsize p1 = wsize p + read_head p"
  using assms
  by (auto simp add: pack_def wsize_def Let_def split: if_splits)

lemma pack_defined:
  assumes "\<not> locked p" "bounds_ok p" "block_ok p"
  shows "\<exists>b p1. pack p = (Inr b, p1)"
proof -
  from assms have le: "unat (read_head p) \<le> unat (write_head p)"
      "unat (write_head p) \<le> length (memory p)"
    by (simp_all add: bounds_ok_def block_ok_def word_le_nat_alt)
  then have "within (read_head p) (write_head p - read_head p) (memory p)"
    using assms by (simp add: within_def bounds_ok_def unat_sub)
  then show ?thesis using assms by (simp add: pack_def Let_def)
qed

lemma operator_new_Inr:
  "operator_new heap n = Inr nmem \<longleftrightarrow>
     n \<le> PTRDIFF_MAX \<and> (\<exists>junk. heap n = Some junk \<and> nmem = map junk [0 ..< unat n])"
  by (auto simp add: operator_new_def split: option.splits)

lemma operator_new_block:
  assumes "operator_new heap n = Inr nmem"
  shows "n \<le> PTRDIFF_MAX" and "length nmem = unat n"
  using assms by (auto simp add: operator_new_Inr)

lemma grow_cases:
  obtains (failed) e where "grow heap p count = (Inl e, p)"
  | (grown) nmem where
      "operator_new heap (buffer_size p + count * allocation_chunk_size p) = Inr nmem"
      "copy_ok p nmem"
      "grow heap p count =
         (Inr (buffer_size p + count * allocation_chunk_size p - (write_head p - read_head p)),
          p\<lparr>memory := copy_live p nmem,
            buffer_size := buffer_size p + count * allocation_chunk_size p,
            write_head := write_head p - read_head p,
            read_head := 0\<rparr>)"
proof (cases "operator_new heap (buffer_size p + count * allocation_chunk_size p)")
  case (Inl e)
  then have "grow heap p count = (Inl e, p)" by (simp add: grow_def Let_def)
  then show ?thesis by (rule failed)
next
  case (Inr nmem)
  show ?thesis
  proof (cases "copy_ok p nmem")
    case True
    with Inr show ?thesis by (intro grown[of nmem]) (simp_all add: grow_def Let_def wsize_def)
  next
    case False
    with Inr have "grow heap p count = (Inl Undefined_behaviour, p)"
      by (simp add: grow_def Let_def)
    then show ?thesis by (rule failed)
  qed
qed

lemma length_copy_live:
  assumes "copy_ok p nmem"
  shows "length (copy_live p nmem) = length nmem"
    and "take (unat (write_head p - read_head p)) (copy_live p nmem) =
           slice (read_head p) (write_head p - read_head p) (memory p)"
    and "length (slice (read_head p) (write_head p - read_head p) (memory p)) =
           unat (write_head p - read_head p)"
proof -
  from assms have le: "unat (read_head p) \<le> unat (write_head p)"
      "unat (write_head p) \<le> length (memory p)"
      "unat (write_head p - read_head p) \<le> length nmem"
    by (simp_all add: copy_ok_def word_le_nat_alt)
  then have d: "unat (write_head p - read_head p) = unat (write_head p) - unat (read_head p)"
    by (simp add: unat_sub word_le_nat_alt)
  show l: "length (slice (read_head p) (write_head p - read_head p) (memory p)) =
           unat (write_head p - read_head p)"
    using le d by (simp add: slice_def)
  show "length (copy_live p nmem) = length nmem"
    using le l by (simp add: copy_live_def)
  show "take (unat (write_head p - read_head p)) (copy_live p nmem) =
           slice (read_head p) (write_head p - read_head p) (memory p)"
    using l by (simp add: copy_live_def)
qed

lemma grow_no_logic_error: "fst (grow heap p count) \<noteq> Inl (Logic_error e)"
  by (auto simp add: grow_def Let_def operator_new_def split: sum.splits option.splits)

lemma pack_no_insufficient: "fst (pack p) \<noteq> Inl (Logic_error Pack_insufficient)"
  by (simp add: pack_def Let_def)

lemma grow_branch:
  assumes "\<not> locked p" "bounds_ok p" "block_ok p"
    and "unat (wsize p) + unat (read_head p) < unat n"
  shows "ensureCapacity heap p n =
           (case count_loop (allocation_chunk_size p) (wsize p) (read_head p) n 1 of
              None \<Rightarrow> None
            | Some count \<Rightarrow> Some (grow heap p count))"
proof -
  from assms(4) have "unat (wsize p) < unat n" by simp
  then have A: "\<not> n \<le> buffer_size p - write_head p"
    by (simp add: word_le_nat_alt wsize_def)
  from assms(4) tail_plus_read(1)[OF assms(2,3)]
  have B: "\<not> n \<le> buffer_size p - write_head p + read_head p"
    by (simp add: word_le_nat_alt)
  from assms(1) A B show ?thesis
    by (simp add: ensureCapacity_def Let_def wsize_def)
qed

lemma tail_branch_returns:
  assumes "\<not> locked p" "n \<le> wsize p"
  shows "ensureCapacity heap p n = Some (Inr (wsize p), p)"
  using assms by (simp add: ensureCapacity_def wsize_def Let_def)

lemma pack_branch_returns:
  assumes ul: "\<not> locked p" and wf: "bounds_ok p" "block_ok p"
    and lo: "unat (wsize p) < unat n"
    and hi: "unat n \<le> unat (wsize p) + unat (read_head p)"
  shows "\<exists>b p1. pack p = (Inr b, p1) \<and> ensureCapacity heap p n = Some (Inr (wsize p1), p1)"
proof -
  from lo have A: "\<not> n \<le> buffer_size p - write_head p"
    by (simp add: word_le_nat_alt wsize_def)
  from hi tail_plus_read(1)[OF wf] have B: "n \<le> buffer_size p - write_head p + read_head p"
    by (simp add: word_le_nat_alt)
  from pack_defined[OF ul wf] obtain b p1 where pk: "pack p = (Inr b, p1)" by blast
  then have w: "wsize p1 = wsize p + read_head p" by (rule pack_wsize)
  with B have enough: "n \<le> wsize p1" by (simp add: wsize_def)
  then have "\<not> wsize p1 < n" by (simp add: not_less)
  with ul A B pk have "ensureCapacity heap p n = Some (Inr (wsize p1), p1)"
    by (simp add: ensureCapacity_def Let_def)
  with pk show ?thesis by blast
qed

lemma bad_alloc_unchanged:
  assumes "ensureCapacity heap p n = Some (Inl Bad_alloc, p')"
  shows "p' = p"
proof (cases "locked p")
  case True
  with assms show ?thesis by (simp add: ensureCapacity_def)
next
  case ul: False
  show ?thesis
  proof (cases "n \<le> buffer_size p - write_head p")
    case True
    with assms ul show ?thesis by (simp add: ensureCapacity_def Let_def)
  next
    case A: False
    show ?thesis
    proof (cases "n \<le> buffer_size p - write_head p + read_head p")
      case B: True
      have "fst (pack p) \<noteq> Inl Bad_alloc" by (simp add: pack_def Let_def)
      with assms ul A B show ?thesis
        by (auto simp add: ensureCapacity_def Let_def split: prod.splits sum.splits if_splits)
    next
      case C: False
      from assms ul A C obtain c where g: "grow heap p c = (Inl Bad_alloc, p')"
        by (auto simp add: ensureCapacity_def Let_def split: option.splits)
      show ?thesis
      proof (cases rule: grow_cases[of heap p c])
        case (failed e)
        with g show ?thesis by simp
      next
        case (grown nmem)
        with g show ?thesis by simp
      qed
    qed
  qed
qed

lemma undefined_only_by_wrap:
  assumes ul: "\<not> locked p" and wf: "bounds_ok p" "block_ok p"
    and big: "unat (wsize p) + unat (read_head p) < unat n"
    and ub: "ensureCapacity heap p n = Some (Inl Undefined_behaviour, p')"
  shows "p' = p \<and>
         (\<exists>count. count_loop (allocation_chunk_size p) (wsize p) (read_head p) n 1 = Some count \<and>
            buffer_size p + count * allocation_chunk_size p < rsize p \<and>
            2 ^ 64 \<le> unat (buffer_size p) + unat count * unat (allocation_chunk_size p))"
proof -
  note n = wf_nat[OF wf]
  from ub grow_branch[OF ul wf big, of heap] obtain c where
    c: "count_loop (allocation_chunk_size p) (wsize p) (read_head p) n 1 = Some c"
    and g: "grow heap p c = (Inl Undefined_behaviour, p')"
    by (auto split: option.splits)
  define nsz where "nsz = buffer_size p + c * allocation_chunk_size p"
  from g obtain nmem where new: "operator_new heap nsz = Inr nmem"
    and bad: "\<not> copy_ok p nmem" and same: "p' = p"
    by (auto simp add: grow_def Let_def nsz_def operator_new_def
        split: sum.splits if_splits option.splits)
  from new have len: "length nmem = unat nsz" by (rule operator_new_block)
  from bad wf n len have lt: "unat nsz < unat (rsize p)"
    by (simp add: copy_ok_def bounds_ok_def rsize_def)
  then have small: "nsz < rsize p" by (simp only: word_less_nat_alt)
  have wrap: "2 ^ 64 \<le> unat (buffer_size p) + unat c * unat (allocation_chunk_size p)"
  proof (rule ccontr)
    assume "\<not> 2 ^ 64 \<le> unat (buffer_size p) + unat c * unat (allocation_chunk_size p)"
    then have s: "unat (buffer_size p) + unat c * unat (allocation_chunk_size p) < 2 ^ 64" by simp
    then have "unat c * unat (allocation_chunk_size p) < 2 ^ 64" by simp
    then have m: "unat (c * allocation_chunk_size p) = unat c * unat (allocation_chunk_size p)"
      by (simp add: unat_mult_lem[THEN iffD1])
    with s have "unat (buffer_size p) + unat (c * allocation_chunk_size p) < 2 ^ 64" by simp
    then have "unat nsz = unat (buffer_size p) + unat (c * allocation_chunk_size p)"
      unfolding nsz_def by (simp add: unat_add_lem[THEN iffD1])
    with lt n show False by simp
  qed
  from same c small wrap show ?thesis unfolding nsz_def by blast
qed

lemma produce_write_bytes:
  assumes "\<not> locked p" "bounds_ok p" "block_ok p" "length bs \<le> unat (wsize p)"
  shows "produce (write_bytes bs) p =
           (Inr (of_nat (length bs)),
            p\<lparr>memory := take (unat (write_head p)) (memory p) @ bs @
                          drop (unat (write_head p) + length bs) (memory p),
              write_head := write_head p + of_nat (length bs)\<rparr>)"
proof -
  note n = wf_nat[OF assms(2,3)]
  note v = views_within[OF assms(2,3)]
  define k :: size_t where "k = of_nat (length bs)"
  have uk: "unat k = length bs" unfolding k_def using assms(4) by (rule unat_of_nat_length)
  have avail: "getAvailableWriteSpace p = drop (unat (write_head p)) (memory p)"
    using n by (simp add: getAvailableWriteSpace_def slice_def)
  have st: "store_at (write_head p) (getAvailableWriteSpace p) bs (memory p) =
        take (unat (write_head p)) (memory p) @ bs @
          drop (unat (write_head p) + length bs) (memory p)"
    using n assms(4) by (simp add: store_at_def avail add.commute)
  show ?thesis
  proof (cases "length bs = 0")
    case True
    then have k0: "k = 0" by (simp add: k_def)
    have "take (unat (write_head p)) (memory p) @ drop (unat (write_head p)) (memory p) = memory p"
      by simp
    with True k0 show ?thesis
      using assms(1) v(2) st
      by (simp add: produce_def write_bytes_def Let_def k_def[symmetric])
  next
    case False
    with uk have "0 < unat k" by simp
    moreover have "unat k < 2 ^ 63" using uk assms(4) n by linarith
    ultimately have pos: "0 <s k" by (rule ssize_positive)
    have "unat (write_head p) + unat k < 2 ^ 64" using uk assms(4) n by simp
    then have "unat (write_head p + k) = unat (write_head p) + unat k"
      by (simp add: unat_add_lem[THEN iffD1])
    with uk assms(4) n have "\<not> buffer_size p < write_head p + k"
      by (simp add: word_less_nat_alt)
    with pos show ?thesis
      using assms(1) v(2) st
      by (simp add: produce_def produced_def write_bytes_def Let_def k_def[symmetric])
  qed
qed

lemma ensureCapacity_result:
  assumes "\<not> locked p" "ensureCapacity heap p n = Some (Inr r, p')"
  shows "r = wsize p' \<and> n \<le> r \<and> (n \<le> wsize p \<longrightarrow> p' = p)"
proof (cases "n \<le> wsize p")
  case True
  with assms show ?thesis by (auto simp add: ensureCapacity_def wsize_def Let_def)
next
  case False
  then have A: "\<not> n \<le> buffer_size p - write_head p" by (simp add: wsize_def)
  show ?thesis
  proof (cases "n \<le> wsize p + read_head p")
    case True
    then have B: "n \<le> buffer_size p - write_head p + read_head p" by (simp add: wsize_def)
    from assms A B False show ?thesis
      by (auto simp add: ensureCapacity_def Let_def not_less
          split: prod.splits sum.splits if_splits)
  next
    case nopack: False
    then have B: "\<not> n \<le> buffer_size p - write_head p + read_head p" by (simp add: wsize_def)
    from assms A B obtain c where
      c: "count_loop (allocation_chunk_size p) (buffer_size p - write_head p) (read_head p) n 1
            = Some c"
      and g: "grow heap p c = (Inr r, p')"
      by (auto simp add: ensureCapacity_def Let_def split: option.splits)
    from count_loop_sound[OF c]
    have stop: "\<not> c * allocation_chunk_size p + (buffer_size p - write_head p) + read_head p < n"
      by blast
    have "r = buffer_size p + c * allocation_chunk_size p - (write_head p - read_head p) \<and>
          wsize p' = buffer_size p + c * allocation_chunk_size p - (write_head p - read_head p)"
    proof (cases rule: grow_cases[of heap p c])
      case (failed e)
      with g show ?thesis by simp
    next
      case (grown nmem)
      from grown(3) g have "r = buffer_size p + c * allocation_chunk_size p - (write_head p - read_head p)"
        and "p' = p\<lparr>memory := copy_live p nmem,
          buffer_size := buffer_size p + c * allocation_chunk_size p,
          write_head := write_head p - read_head p,
          read_head := 0\<rparr>" by simp_all
      then show ?thesis by (simp add: wsize_def)
    qed
    then have r: "r = buffer_size p + c * allocation_chunk_size p - (write_head p - read_head p)"
      and p': "wsize p' = buffer_size p + c * allocation_chunk_size p - (write_head p - read_head p)"
      by blast+
    have "buffer_size p + c * allocation_chunk_size p - (write_head p - read_head p) =
          c * allocation_chunk_size p + (buffer_size p - write_head p) + read_head p"
      by simp
    with stop r p' False show ?thesis by (simp add: not_less)
  qed
qed

subsection \<open>The invariant, operation by operation\<close>

lemma pipe_inv_parts:
  assumes "pipe_inv p"
  shows "bounds_ok p" "empty_at_start p" "block_ok p" "chunk_ok p"
  using assms by (simp_all add: pipe_inv_def)

lemma memory_update_inv:
  assumes "pipe_inv p" "length mem' = length (memory p)"
  shows "pipe_inv (p\<lparr>memory := mem'\<rparr>)"
  using assms
  by (simp add: pipe_inv_def bounds_ok_def empty_at_start_def block_ok_def chunk_ok_def)

lemma produced_inv:
  assumes "pipe_inv p" "unat (write_head p) + unat n \<le> unat (buffer_size p)"
  shows "pipe_inv (snd (produced p n))"
proof (cases "locked p")
  case True
  with assms(1) show ?thesis by (simp add: produced_def)
next
  case False
  note n = wf_nat[OF pipe_inv_parts(1,3)[OF assms(1)]]
  have "unat (write_head p) + unat n < 2 ^ 64" using assms(2) n(4) by simp
  then have u: "unat (write_head p + n) = unat (write_head p) + unat n"
    by (simp add: unat_add_lem[THEN iffD1])
  with assms(2) have ok: "\<not> buffer_size p < write_head p + n" by (simp add: word_less_nat_alt)
  have "read_head p = write_head p + n \<Longrightarrow> write_head p + n = 0"
  proof -
    assume e: "read_head p = write_head p + n"
    then have "unat (read_head p) = unat (write_head p) + unat n" using u by simp
    with n(1) have "unat (read_head p) = unat (write_head p)" "unat n = 0" by simp_all
    then have "read_head p = write_head p" "n = 0" by (simp_all add: word_unat_eq_iff)
    with assms(1) show ?thesis by (simp add: pipe_inv_def empty_at_start_def)
  qed
  then show ?thesis using assms False ok u n
    by (auto simp add: produced_def pipe_inv_def bounds_ok_def empty_at_start_def block_ok_def
        chunk_ok_def word_le_nat_alt)
qed

lemma consumed_inv:
  assumes "pipe_inv p" "unat (read_head p) + unat n \<le> unat (write_head p)"
  shows "pipe_inv (snd (consumed p n))"
proof (cases "locked p")
  case True
  with assms(1) show ?thesis by (simp add: consumed_def)
next
  case False
  note n = wf_nat[OF pipe_inv_parts(1,3)[OF assms(1)]]
  have "unat (read_head p) + unat n < 2 ^ 64" using assms(2) n(2,4) by simp
  then have u: "unat (read_head p + n) = unat (read_head p) + unat n"
    by (simp add: unat_add_lem[THEN iffD1])
  with assms(2) have ok: "\<not> write_head p < read_head p + n" by (simp add: word_less_nat_alt)
  show ?thesis using assms False ok u n
    by (auto simp add: consumed_def Let_def pipe_inv_def bounds_ok_def empty_at_start_def
        block_ok_def chunk_ok_def word_le_nat_alt)
qed

lemma produced_checked_inv:
  assumes "pipe_inv p" "unat n < 2 ^ 63"
  shows "pipe_inv (snd (produced p n))"
proof (cases "buffer_size p < write_head p + n \<or> locked p")
  case True
  with assms(1) show ?thesis by (auto simp add: produced_def)
next
  case False
  note n = wf_nat[OF pipe_inv_parts(1,3)[OF assms(1)]]
  have "unat (write_head p) + unat n < 2 ^ 64" using assms(2) n(2,4) by simp
  then have u: "unat (write_head p + n) = unat (write_head p) + unat n"
    by (simp add: unat_add_lem[THEN iffD1])
  with False have "unat (write_head p) + unat n \<le> unat (buffer_size p)"
    by (simp add: word_less_nat_alt)
  with assms(1) show ?thesis by (rule produced_inv)
qed

lemma consumed_checked_inv:
  assumes "pipe_inv p" "unat n < 2 ^ 63"
  shows "pipe_inv (snd (consumed p n))"
proof (cases "write_head p < read_head p + n \<or> locked p")
  case True
  with assms(1) show ?thesis by (auto simp add: consumed_def)
next
  case False
  note n = wf_nat[OF pipe_inv_parts(1,3)[OF assms(1)]]
  have "unat (read_head p) + unat n < 2 ^ 64" using assms(2) n(1,2,4) by simp
  then have u: "unat (read_head p + n) = unat (read_head p) + unat n"
    by (simp add: unat_add_lem[THEN iffD1])
  with False have "unat (read_head p) + unat n \<le> unat (write_head p)"
    by (simp add: word_less_nat_alt)
  with assms(1) show ?thesis by (rule consumed_inv)
qed

lemma pack_inv:
  assumes "pipe_inv p"
  shows "pipe_inv (snd (pack p))"
proof (cases "locked p")
  case True
  with assms(1) show ?thesis by (simp add: pack_def)
next
  case False
  note n = wf_nat[OF pipe_inv_parts(1,3)[OF assms(1)]]
  have d: "unat (write_head p - read_head p) = unat (write_head p) - unat (read_head p)"
    using n(5) by (simp add: rsize_def)
  have len: "length (memory p) = unat (buffer_size p) \<Longrightarrow>
      length (memmove_front (read_head p) (write_head p - read_head p) (memory p)) = unat (buffer_size p)"
    using n d by (simp add: memmove_front_def slice_def)
  show ?thesis using assms False n d len
    by (auto simp add: pack_def Let_def pipe_inv_def bounds_ok_def empty_at_start_def
        block_ok_def chunk_ok_def word_le_nat_alt)
qed

lemma simple_inv:
  assumes "pipe_inv p"
  shows "pipe_inv (snd (clear p))" "pipe_inv (snd (lock p))" "pipe_inv (snd (unlock p))"
  using assms
  by (auto simp add: clear_def lock_def unlock_def pipe_inv_def bounds_ok_def empty_at_start_def
      block_ok_def chunk_ok_def)

lemma produce_inv:
  assumes "pipe_inv p"
  shows "pipe_inv (snd (produce producer p))"
proof (cases "locked p \<or> \<not> within (write_head p) (wsize p) (memory p)")
  case True
  with assms show ?thesis by (auto simp add: produce_def)
next
  case False
  obtain written ret where pr: "producer (getAvailableWriteSpace p) = (written, ret)"
    by (cases "producer (getAvailableWriteSpace p)")
  define p1 where
    "p1 = p\<lparr>memory := store_at (write_head p) (getAvailableWriteSpace p) written (memory p)\<rparr>"
  note v = views_within[OF pipe_inv_parts(1,3)[OF assms(1)]]
  have "unat (write_head p) + length (getAvailableWriteSpace p) \<le> length (memory p)"
    using v(2,4) by (simp add: within_def)
  then have "length (store_at (write_head p) (getAvailableWriteSpace p) written (memory p)) =
             length (memory p)" by (rule length_store_at)
  with assms have inv1: "pipe_inv p1" unfolding p1_def by (rule memory_update_inv)
  show ?thesis
  proof (cases "0 <s ret")
    case True
    then have "unat ret < 2 ^ 63" by (rule positive_ssize)
    with inv1 have "pipe_inv (snd (produced p1 ret))" by (rule produced_checked_inv)
    then show ?thesis using False pr True
      by (auto simp add: produce_def Let_def p1_def[symmetric] split: prod.splits sum.splits)
  next
    case neg: False
    then show ?thesis using False pr inv1
      by (simp add: produce_def Let_def p1_def[symmetric])
  qed
qed

lemma consume_inv:
  assumes "pipe_inv p"
  shows "pipe_inv (snd (consume consumer p))"
proof (cases "locked p \<or> \<not> within (read_head p) (rsize p) (memory p)")
  case True
  with assms show ?thesis by (auto simp add: consume_def)
next
  case False
  define ret where "ret = consumer (getAvailableReadSpace p)"
  show ?thesis
  proof (cases "0 <s ret")
    case True
    then have "unat ret < 2 ^ 63" by (rule positive_ssize)
    with assms have "pipe_inv (snd (consumed p ret))" by (rule consumed_checked_inv)
    then show ?thesis using False True
      by (auto simp add: consume_def Let_def ret_def[symmetric] split: prod.splits sum.splits)
  next
    case neg: False
    then show ?thesis using False assms
      by (simp add: consume_def Let_def ret_def[symmetric])
  qed
qed

lemma grow_inv:
  assumes "pipe_inv p"
  shows "pipe_inv (snd (grow heap p count))"
proof (cases rule: grow_cases[of heap p count])
  case (failed e)
  with assms show ?thesis by simp
next
  case (grown nmem)
  from grown(1) have nm: "buffer_size p + count * allocation_chunk_size p \<le> PTRDIFF_MAX"
      "length nmem = unat (buffer_size p + count * allocation_chunk_size p)"
    by (rule operator_new_block)+
  from grown(2) have "unat (write_head p - read_head p) \<le> length nmem"
    by (simp add: copy_ok_def)
  with nm(2) have "write_head p - read_head p \<le> buffer_size p + count * allocation_chunk_size p"
    by (simp add: word_le_nat_alt)
  then show ?thesis
    using assms nm length_copy_live(1)[OF grown(2)]
    by (simp add: grown(3) pipe_inv_def bounds_ok_def empty_at_start_def block_ok_def chunk_ok_def)
qed

lemma ensureCapacity_inv:
  assumes "pipe_inv p" "ensureCapacity heap p n = Some (r, p')"
  shows "pipe_inv p'"
proof -
  have pk: "pipe_inv p1" if "pack p = (r1, p1)" for r1 p1
    using pack_inv[OF assms(1)] that by simp
  have gr: "pipe_inv p1" if "grow heap p count = (r1, p1)" for count r1 p1
    using grow_inv[OF assms(1), of heap count] that by simp
  show ?thesis
    using assms
    by (auto simp add: ensureCapacity_def Let_def
        split: if_splits prod.splits sum.splits option.splits intro: pk gr)
qed

lemma Pipe_result:
  assumes "Pipe heap sz = Inr p"
  shows "sz \<le> PTRDIFF_MAX"
    and "\<exists>junk. p = \<lparr> memory = map junk [0 ..< unat sz], buffer_size = sz, write_head = 0,
               read_head = 0, locked = False,
               allocation_chunk_size =
                 max (calculateAllocationChunkSize sz) defaultAllocationChunkSize \<rparr>"
  using assms
  by (auto simp add: Pipe_def operator_new_def initial_write_head_def initial_read_head_def
      initial_locked_def split: if_splits option.splits)

lemma Pipe_inv:
  assumes "Pipe heap sz = Inr p"
  shows "pipe_inv p"
    and "allocation_chunk_size p =
           max (calculateAllocationChunkSize sz) defaultAllocationChunkSize"
proof -
  from Pipe_result[OF assms] obtain junk where le: "sz \<le> PTRDIFF_MAX"
    and p: "p = \<lparr> memory = map junk [0 ..< unat sz], buffer_size = sz, write_head = 0,
               read_head = 0, locked = False,
               allocation_chunk_size =
                 max (calculateAllocationChunkSize sz) defaultAllocationChunkSize \<rparr>"
    by blast
  from le have b: "unat sz < 2 ^ 63"
    unfolding word_le_nat_alt unat_PTRDIFF_MAX by simp
  then have "unat sz div 512 < 2 ^ 54" by simp
  then have "(unat sz div 512 + (if unat sz mod 512 \<noteq> 0 then 1 else 0)) * 512 \<le> 2 ^ 63"
    by simp
  with calc_nat[OF b] have "unat (calculateAllocationChunkSize sz) \<le> unat (2 ^ 63 :: size_t)"
    by simp
  then have "calculateAllocationChunkSize sz \<le> 2 ^ 63" by (simp only: word_le_nat_alt)
  then have "chunk_ok p"
    by (simp add: p chunk_ok_def defaultAllocationChunkSize_def)
  moreover have "bounds_ok p" "empty_at_start p" "block_ok p"
    using le by (simp_all add: p bounds_ok_def empty_at_start_def block_ok_def)
  ultimately show "pipe_inv p" by (simp add: pipe_inv_def)
  show "allocation_chunk_size p =
           max (calculateAllocationChunkSize sz) defaultAllocationChunkSize"
    by (simp add: p)
qed

lemma chunk_fixed:
  "allocation_chunk_size (snd (produced p n)) = allocation_chunk_size p"
  "allocation_chunk_size (snd (consumed p n)) = allocation_chunk_size p"
  "allocation_chunk_size (snd (pack p)) = allocation_chunk_size p"
  "allocation_chunk_size (snd (clear p)) = allocation_chunk_size p"
  "allocation_chunk_size (snd (lock p)) = allocation_chunk_size p"
  "allocation_chunk_size (snd (unlock p)) = allocation_chunk_size p"
  "allocation_chunk_size (snd (grow heap p count)) = allocation_chunk_size p"
  by (simp_all add: produced_def consumed_def pack_def clear_def lock_def unlock_def grow_def
      Let_def split: sum.splits)

lemma chunk_fixed_callbacks:
  "allocation_chunk_size (snd (produce producer p)) = allocation_chunk_size p"
  "allocation_chunk_size (snd (consume consumer p)) = allocation_chunk_size p"
  by (auto simp add: produce_def consume_def produced_def consumed_def Let_def
      split: prod.splits sum.splits if_splits)

lemma chunk_fixed_ensureCapacity:
  assumes "ensureCapacity heap p n = Some (r, p')"
  shows "allocation_chunk_size p' = allocation_chunk_size p"
proof -
  have pk: "allocation_chunk_size p1 = allocation_chunk_size p" if "pack p = (r1, p1)" for r1 p1
    using chunk_fixed(3)[of p] that by simp
  have gr: "allocation_chunk_size p1 = allocation_chunk_size p"
    if "grow heap p count = (r1, p1)" for count r1 p1
    using chunk_fixed(7)[of heap p count] that by simp
  show ?thesis
    using assms
    by (auto simp add: ensureCapacity_def Let_def
        split: if_splits prod.splits sum.splits option.splits dest: pk gr)
qed

lemma outcome_snd: "snd (outcome rp) = snd rp"
  by (simp add: outcome_def split: prod.splits sum.splits)

lemma call_pipe_inv:
  assumes "pipe_inv p" "precondition p c" "call_pipe heap p c = Some (r, p')"
  shows "pipe_inv p' \<and> allocation_chunk_size p' = allocation_chunk_size p"
proof (cases c)
  case (EnsureCapacity n)
  with assms(3) obtain x where x: "ensureCapacity heap p n = Some x" "outcome x = (r, p')"
    by auto
  then have "snd x = p'" using outcome_snd[of x] by simp
  with x(1) have "ensureCapacity heap p n = Some (fst x, p')" by (cases x) simp
  with assms(1) show ?thesis
    by (auto intro: ensureCapacity_inv chunk_fixed_ensureCapacity)
next
  case (Produced n)
  with assms(3) have "p' = snd (produced p n)" using outcome_snd[of "produced p n"] by auto
  with assms(1,2) Produced show ?thesis by (simp add: produced_inv chunk_fixed)
next
  case (Consumed n)
  with assms(3) have "p' = snd (consumed p n)" using outcome_snd[of "consumed p n"] by auto
  with assms(1,2) Consumed show ?thesis by (simp add: consumed_inv chunk_fixed)
next
  case Pack
  with assms(3) have "p' = snd (pack p)" using outcome_snd[of "pack p"] by auto
  with assms(1) show ?thesis by (simp add: pack_inv chunk_fixed)
next
  case Clear
  with assms(3) have "p' = snd (clear p)" using outcome_snd[of "clear p"] by auto
  with assms(1) show ?thesis by (simp add: simple_inv chunk_fixed)
next
  case Lock
  with assms(3) have "p' = snd (lock p)" using outcome_snd[of "lock p"] by auto
  with assms(1) show ?thesis by (simp add: simple_inv chunk_fixed)
next
  case Unlock
  with assms(3) have "p' = snd (unlock p)" using outcome_snd[of "unlock p"] by auto
  with assms(1) show ?thesis by (simp add: simple_inv chunk_fixed)
next
  case (Produce producer)
  with assms(3) have "p' = snd (produce producer p)"
    using outcome_snd[of "produce producer p"] by auto
  with assms(1) show ?thesis by (simp add: produce_inv chunk_fixed_callbacks)
next
  case (Consume consumer)
  with assms(3) have "p' = snd (consume consumer p)"
    using outcome_snd[of "consume consumer p"] by auto
  with assms(1) show ?thesis by (simp add: consume_inv chunk_fixed_callbacks)
qed

lemma reachable_inv:
  assumes "reachable sz p"
  shows "pipe_inv p \<and> sz \<le> PTRDIFF_MAX \<and>
         allocation_chunk_size p = max (calculateAllocationChunkSize sz) defaultAllocationChunkSize"
  using assms
proof (induction rule: reachable.induct)
  case (constructed heap p)
  then show ?case using Pipe_inv[OF constructed] Pipe_result(1)[OF constructed] by simp
next
  case (called p c heap r p')
  with call_pipe_inv[of p c heap r p'] show ?case by simp
qed

lemma growth_unit:
  assumes "reachable sz p"
  shows "\<exists>m. least_multiple 512 (unat sz) m \<and> unat (allocation_chunk_size p) = max 512 m"
proof -
  note r = reachable_inv[OF assms]
  from r have "unat sz < 2 ^ 63"
    unfolding word_le_nat_alt unat_PTRDIFF_MAX by simp
  from calc_nat[OF this] r
  have "unat (allocation_chunk_size p) =
        max 512 ((unat sz div 512 + (if unat sz mod 512 \<noteq> 0 then 1 else 0)) * 512)"
    by (simp add: unat_max defaultAllocationChunkSize_def max.commute)
  with least_multiple_round_up[of "unat sz"] show ?thesis by blast
qed

subsection \<open>Growth\<close>

lemma growth_is_minimal:
  assumes ul: "\<not> locked p" and inv: "pipe_inv p"
    and big: "unat (wsize p) + unat (read_head p) < unat n"
    and ok: "ensureCapacity heap p n = Some (Inr r, p')"
  shows "\<exists>count nmem.
           least_count (unat (allocation_chunk_size p))
             (unat (wsize p) + unat (read_head p)) (unat n) count \<and>
           unat (buffer_size p') =
             unat (buffer_size p) + count * unat (allocation_chunk_size p) \<and>
           copy_ok p nmem \<and>
           p' = p\<lparr>memory := copy_live p nmem,
                  buffer_size := buffer_size p + of_nat count * allocation_chunk_size p,
                  write_head := write_head p - read_head p,
                  read_head := 0\<rparr> \<and>
           r = wsize p'"
proof -
  note b = pipe_inv_parts[OF inv]
  note n = wf_nat[OF b(1) b(3)]
  note tp = tail_plus_read[OF b(1) b(3)]
  define ch where "ch = allocation_chunk_size p"
  define u t N live where "u = unat ch" and "t = unat (wsize p) + unat (read_head p)"
    and "N = unat n" and "live = unat (rsize p)"
  from ok grow_branch[OF ul b(1) b(3) big, of heap] obtain c where
    c: "count_loop ch (wsize p) (read_head p) n 1 = Some c" and g: "grow heap p c = (Inr r, p')"
    by (auto simp add: ch_def split: option.splits)
  from count_loop_sound[OF c] obtain m where m: "c = 1 + of_nat m"
    and below: "\<forall>j<m. (1 + of_nat j) * ch + wsize p + read_head p < n"
    and stop: "\<not> c * ch + wsize p + read_head p < n" by blast
  define nsz where "nsz = buffer_size p + c * ch"
  obtain nmem where new: "operator_new heap nsz = Inr nmem" and cp: "copy_ok p nmem"
    and p': "p' = p\<lparr>memory := copy_live p nmem, buffer_size := nsz,
                     write_head := write_head p - read_head p, read_head := 0\<rparr>"
    and r: "r = nsz - (write_head p - read_head p)"
  proof (cases rule: grow_cases[of heap p c])
    case (failed e)
    with g show ?thesis by simp
  next
    case (grown nmem)
    with g that[of nmem] show ?thesis by (simp add: nsz_def ch_def)
  qed
  from new have nsz_le: "nsz \<le> PTRDIFF_MAX" and len: "length nmem = unat nsz"
    by (rule operator_new_block)+
  from nsz_le have nsz_b: "unat nsz < 2 ^ 63"
    unfolding word_le_nat_alt unat_PTRDIFF_MAX by simp
  from cp len have live_le: "live \<le> unat nsz"
    by (simp add: copy_ok_def live_def rsize_def)
  define V where "V = unat (c * ch + wsize p + read_head p)"
  have "nsz = (c * ch + wsize p + read_head p) + rsize p"
    by (simp add: nsz_def wsize_def rsize_def)
  then have un: "unat nsz = (V + live) mod 2 ^ 64"
    by (simp add: unat_word_ariths(1) V_def live_def)
  have Vb: "V < 2 ^ 64" unfolding V_def using unsigned_less[of "c * ch + wsize p + read_head p", where 'a = nat] by simp
  have nowrap: "V + live < 2 ^ 64"
  proof (rule ccontr)
    assume "\<not> V + live < 2 ^ 64"
    then have ge: "2 ^ 64 \<le> V + live" by simp
    from n(4) tp(2) have "live < 2 ^ 64" by (simp add: live_def)
    with Vb have "V + live - 2 ^ 64 < 2 ^ 64" by simp
    with ge have "(V + live) mod 2 ^ 64 = V + live - 2 ^ 64"
      by (metis le_mod_geq mod_less)
    with un Vb ge have "unat nsz < live" by simp
    with live_le show False by simp
  qed
  with un have un': "unat nsz = V + live" by simp
  with nsz_b have V63: "V < 2 ^ 63" by simp
  from stop have NV: "N \<le> V" by (simp add: word_less_nat_alt V_def N_def)
  with V63 have N63: "unat n < 2 ^ 63" by (simp add: N_def)
  from b(4) have "unat ch \<le> unat (2 ^ 63 :: size_t)"
    by (simp only: chunk_ok_def word_le_nat_alt ch_def)
  then have u63: "unat ch \<le> 2 ^ 63" by simp
  from n(4) tp(2) have t63: "unat (wsize p) + unat (read_head p) < 2 ^ 63" by simp
  have pre: "Suc j * unat ch + unat (wsize p) + unat (read_head p) < 2 ^ 64" if "j \<le> m" for j
    using no_wrap_prefix[OF u63 t63 N63 below that] .
  have val: "unat (of_nat (Suc j) * ch + wsize p + read_head p) = Suc j * u + t" if "j \<le> m" for j
    using loop_value[OF pre[OF that]] by (simp add: u_def t_def)
  have cm: "c = of_nat (Suc m)" using m by simp
  have Vm: "V = Suc m * u + t" unfolding V_def cm using val[of m] by simp
  have least: "least_count u t N (Suc m)"
    unfolding least_count_def
  proof (intro conjI allI impI)
    from NV Vm show "N \<le> Suc m * u + t" by simp
  next
    fix c' assume c': "N \<le> c' * u + t"
    show "Suc m \<le> c'"
    proof (rule ccontr)
      assume "\<not> Suc m \<le> c'"
      then have lt: "c' < Suc m" by simp
      show False
      proof (cases c')
        case 0
        with c' big show False by (simp add: t_def N_def)
      next
        case (Suc j)
        with lt have jm: "j < m" by simp
        with below have "of_nat (Suc j) * ch + wsize p + read_head p < n"
          unfolding one_plus_of_nat by blast
        then have "Suc j * u + t < N"
          using val[of j] jm by (simp add: word_less_nat_alt N_def)
        with c' Suc show False by simp
      qed
    qed
  qed
  have "unat (buffer_size p') = unat (buffer_size p) + Suc m * u"
    using un' Vm tp(2) by (simp add: p' live_def t_def)
  moreover have "p' = p\<lparr>memory := copy_live p nmem,
                  buffer_size := buffer_size p + of_nat (Suc m) * allocation_chunk_size p,
                  write_head := write_head p - read_head p,
                  read_head := 0\<rparr>"
    using p' by (simp add: nsz_def cm ch_def)
  moreover have "r = wsize p'" using r p' by (simp add: wsize_def)
  ultimately show ?thesis using least cp
    unfolding u_def t_def N_def ch_def by blast
qed

lemma growth_request:
  assumes ul: "\<not> locked p" and inv: "pipe_inv p"
    and big: "unat (wsize p) + unat (read_head p) < unat n"
    and bound: "unat (buffer_size p) + unat n + unat (allocation_chunk_size p) \<le> 2 ^ 63"
  shows "\<exists>count.
           least_count (unat (allocation_chunk_size p))
             (unat (wsize p) + unat (read_head p)) (unat n) count \<and>
           unat (buffer_size p + of_nat count * allocation_chunk_size p) =
             unat (buffer_size p) + count * unat (allocation_chunk_size p) \<and>
           (heap (buffer_size p + of_nat count * allocation_chunk_size p) \<noteq> None \<longrightarrow>
              (\<exists>r p'. ensureCapacity heap p n = Some (Inr r, p'))) \<and>
           (heap (buffer_size p + of_nat count * allocation_chunk_size p) = None \<longrightarrow>
              ensureCapacity heap p n = Some (Inl Bad_alloc, p))"
proof -
  note b = pipe_inv_parts[OF inv]
  note n = wf_nat[OF b(1) b(3)]
  note tp = tail_plus_read[OF b(1) b(3)]
  define ch where "ch = allocation_chunk_size p"
  define u t N live where "u = unat ch" and "t = unat (wsize p) + unat (read_head p)"
    and "N = unat n" and "live = unat (rsize p)"
  from b(4) have "unat (512 :: size_t) \<le> unat ch"
    by (simp only: chunk_ok_def word_le_nat_alt ch_def defaultAllocationChunkSize_def)
  then have u1: "1 \<le> u" by (simp add: u_def)
  define M where "M = (LEAST c. N \<le> c * u + t)"
  have "N \<le> N * u + t" using u1 by (simp add: le_add1 trans_le_add1)
  then have M_sat: "N \<le> M * u + t" unfolding M_def by (rule LeastI)
  have M_min: "c * u + t < N" if "c < M" for c
    using not_less_Least[of c "\<lambda>c. N \<le> c * u + t"] that by (simp add: M_def not_le)
  have M_least: "least_count u t N M"
    unfolding least_count_def
  proof (intro conjI allI impI)
    show "N \<le> M * u + t" by (rule M_sat)
  next
    fix c' assume "N \<le> c' * u + t"
    then show "M \<le> c'" unfolding M_def by (rule Least_le)
  qed
  have "M \<noteq> 0"
  proof
    assume "M = 0"
    with M_sat have "N \<le> t" by simp
    with big show False by (simp add: t_def N_def)
  qed
  then obtain m where M: "M = Suc m" by (cases M) simp_all
  have mN: "m * u + t < N" using M_min[of m] M by simp
  then have top: "Suc m * u + t < N + u" by simp
  have cap: "t + live = unat (buffer_size p)" using tp(2) by (simp add: t_def live_def)
  from bound have bnd: "unat (buffer_size p) + N + u \<le> 2 ^ 63" by (simp add: N_def u_def ch_def)
  have small: "Suc j * u + t < 2 ^ 64" if "j \<le> m" for j
  proof -
    from that have "j * u \<le> m * u" by (rule mult_le_mono1)
    moreover note mN
    moreover have "(2 :: nat) ^ 63 < 2 ^ 64" by simp
    ultimately have "j * u + u + t < 2 ^ 64" using bnd by linarith
    then show ?thesis by simp
  qed
  have val: "unat (of_nat (Suc j) * ch + wsize p + read_head p) = Suc j * u + t" if "j \<le> m" for j
    using loop_value[of "Suc j" ch "wsize p" "read_head p"] small[OF that]
    by (simp add: u_def t_def)
  have below: "\<forall>j<m. (1 + of_nat j) * ch + wsize p + read_head p < n"
  proof (intro allI impI)
    fix j assume jm: "j < m"
    then have "Suc j * u + t < N" using M_min[of "Suc j"] M by simp
    then have "of_nat (Suc j) * ch + wsize p + read_head p < n"
      using val[of j] jm by (simp add: word_less_nat_alt N_def)
    then show "(1 + of_nat j) * ch + wsize p + read_head p < n"
      unfolding one_plus_of_nat .
  qed
  have "\<not> of_nat (Suc m) * ch + wsize p + read_head p < n"
    using val[of m] M_sat M by (simp add: word_less_nat_alt N_def)
  then have stop: "\<not> (1 + of_nat m) * ch + wsize p + read_head p < n"
    unfolding one_plus_of_nat .
  define c :: size_t where "c = 1 + of_nat m"
  from count_loop_complete[OF below stop]
  have loop: "count_loop ch (wsize p) (read_head p) n 1 = Some c" by (simp add: c_def)
  have cm: "c = of_nat M" by (simp add: c_def M)
  define nsz where "nsz = buffer_size p + c * ch"
  have "nsz = (c * ch + wsize p + read_head p) + rsize p"
    by (simp add: nsz_def wsize_def rsize_def)
  then have "unat nsz = (Suc m * u + t + live) mod 2 ^ 64"
    using val[of m] by (simp add: unat_word_ariths(1) cm M live_def)
  moreover have lt: "Suc m * u + t + live < 2 ^ 63" using top bnd cap by simp
  ultimately have un: "unat nsz = Suc m * u + t + live" by simp
  with cap have size: "unat nsz = unat (buffer_size p) + M * u" by (simp add: M)
  from un lt have "unat nsz \<le> unat PTRDIFF_MAX" unfolding unat_PTRDIFF_MAX by simp
  then have fits: "nsz \<le> PTRDIFF_MAX" by (simp only: word_le_nat_alt)
  from loop grow_branch[OF ul b(1) b(3) big, of heap]
  have call: "ensureCapacity heap p n = Some (grow heap p c)" by (simp add: ch_def)
  have served: "\<exists>r p'. ensureCapacity heap p n = Some (Inr r, p')" if "heap nsz \<noteq> None"
  proof -
    from that obtain junk where "heap nsz = Some junk" by auto
    with fits have new: "operator_new heap nsz = Inr (map junk [0 ..< unat nsz])"
      by (simp add: operator_new_def)
    have "copy_ok p (map junk [0 ..< unat nsz])"
      using b(1) n un by (simp add: copy_ok_def bounds_ok_def live_def rsize_def)
    with new have "\<exists>r p'. grow heap p c = (Inr r, p')"
      by (simp add: grow_def Let_def nsz_def ch_def)
    with call show ?thesis by auto
  qed
  have refused: "ensureCapacity heap p n = Some (Inl Bad_alloc, p)" if "heap nsz = None"
  proof -
    from that have "operator_new heap nsz = Inl Bad_alloc" by (simp add: operator_new_def)
    then have "grow heap p c = (Inl Bad_alloc, p)"
      by (simp add: grow_def Let_def nsz_def ch_def)
    with call show ?thesis by simp
  qed
  have 1: "least_count (unat (allocation_chunk_size p))
             (unat (wsize p) + unat (read_head p)) (unat n) M"
    using M_least by (simp add: u_def t_def N_def ch_def)
  have 2: "unat (buffer_size p + of_nat M * allocation_chunk_size p) =
             unat (buffer_size p) + M * unat (allocation_chunk_size p)"
    using size by (simp add: nsz_def cm u_def ch_def)
  have 3: "\<exists>r p'. ensureCapacity heap p n = Some (Inr r, p')"
    if "heap (buffer_size p + of_nat M * allocation_chunk_size p) \<noteq> None"
    using served that by (simp add: nsz_def cm ch_def)
  have 4: "ensureCapacity heap p n = Some (Inl Bad_alloc, p)"
    if "heap (buffer_size p + of_nat M * allocation_chunk_size p) = None"
    using refused that by (simp add: nsz_def cm ch_def)
  show ?thesis
  proof (intro exI[of _ M] conjI impI)
    show "least_count (unat (allocation_chunk_size p))
             (unat (wsize p) + unat (read_head p)) (unat n) M" by (rule 1)
    show "unat (buffer_size p + of_nat M * allocation_chunk_size p) =
             unat (buffer_size p) + M * unat (allocation_chunk_size p)" by (rule 2)
    show "\<exists>r p'. ensureCapacity heap p n = Some (Inr r, p')"
      if "heap (buffer_size p + of_nat M * allocation_chunk_size p) \<noteq> None"
      using that by (rule 3)
    show "ensureCapacity heap p n = Some (Inl Bad_alloc, p)"
      if "heap (buffer_size p + of_nat M * allocation_chunk_size p) = None"
      using that by (rule 4)
  qed
qed

lemma least_count_unique:
  assumes "least_count u t n c" "least_count u t n c'"
  shows "c = c'"
proof (rule le_antisym)
  from assms(1) have a: "\<forall>d. n \<le> d * u + t \<longrightarrow> c \<le> d" by (simp add: least_count_def)
  from assms(2) have b: "\<forall>d. n \<le> d * u + t \<longrightarrow> c' \<le> d" by (simp add: least_count_def)
  from assms(2) have "n \<le> c' * u + t" by (simp add: least_count_def)
  with a show "c \<le> c'" by blast
  from assms(1) have "n \<le> c * u + t" by (simp add: least_count_def)
  with b show "c' \<le> c" by blast
qed

subsection \<open>The example windows\<close>

lemma Pipe_512:
  "Pipe zero_heap 512 =
     Inr \<lparr> memory = map zero_junk [0 ..< 512], buffer_size = 512, write_head = 0,
           read_head = 0, locked = False, allocation_chunk_size = 512 \<rparr>"
  by (simp add: Pipe_def operator_new_def zero_heap_def PTRDIFF_MAX_def initial_write_head_def
      initial_read_head_def initial_locked_def calculateAllocationChunkSize_def
      defaultAllocationChunkSize_def Let_def)

lemma Pipe_16:
  "Pipe zero_heap 16 =
     Inr \<lparr> memory = map zero_junk [0 ..< 16], buffer_size = 16, write_head = 0,
           read_head = 0, locked = False, allocation_chunk_size = 512 \<rparr>"
  by (simp add: Pipe_def operator_new_def zero_heap_def PTRDIFF_MAX_def initial_write_head_def
      initial_read_head_def initial_locked_def calculateAllocationChunkSize_def
      defaultAllocationChunkSize_def Let_def)

lemma Pipe_4: "Pipe zero_heap 4 = Inr fresh_window"
  by (simp add: fresh_window_def Pipe_def operator_new_def zero_heap_def PTRDIFF_MAX_def initial_write_head_def
      initial_read_head_def initial_locked_def)

lemma size_max: "(18446744073709551615 :: size_t) = - 1"
  by simp

lemma fresh_window_eq:
  "fresh_window =
     \<lparr> memory = [0, 0, 0, 0], buffer_size = 4, write_head = 0, read_head = 0,
       locked = False, allocation_chunk_size = 512 \<rparr>"
  by (simp add: fresh_window_def Pipe_def operator_new_def zero_heap_def PTRDIFF_MAX_def initial_write_head_def
      initial_read_head_def initial_locked_def
      calculateAllocationChunkSize_def defaultAllocationChunkSize_def Let_def zero_junk_def
      upt_conv_Cons)

lemma produce_fresh:
  "produce (write_bytes [20, 30, 40]) fresh_window =
     (Inr 3, \<lparr> memory = [20, 30, 40, 0], buffer_size = 4, write_head = 3, read_head = 0,
       locked = False, allocation_chunk_size = 512 \<rparr>)"
  unfolding fresh_window_eq
  by (simp add: produce_def produced_def write_bytes_def within_def wsize_def
      getAvailableWriteSpace_def slice_def store_at_def Let_def word_sless_alt)

lemma used_window_eq:
  "used_window =
     \<lparr> memory = [20, 30, 40, 0], buffer_size = 4, write_head = 3, read_head = 1,
       locked = False, allocation_chunk_size = 512 \<rparr>"
  unfolding used_window_def produce_fresh
  by (simp add: consumed_def Let_def)

lemma used_window_reachable: "reachable 4 used_window"
proof -
  have r0: "reachable 4 fresh_window" using Pipe_4 by (rule reachable.constructed)
  have "reachable 4 (snd (produce (write_bytes [20, 30, 40]) fresh_window))"
    by (rule reachable.called[OF r0, of "Produce (write_bytes [20, 30, 40])" zero_heap None])
      (simp_all add: produce_fresh outcome_def, simp add: fresh_window_eq)
  then have r1: "reachable 4 \<lparr> memory = [20, 30, 40, 0], buffer_size = 4, write_head = 3,
       read_head = 0, locked = False, allocation_chunk_size = 512 \<rparr>"
    by (simp add: produce_fresh)
  show ?thesis
    unfolding used_window_eq
    by (rule reachable.called[OF r1, of "Consumed 1" zero_heap None])
      (simp_all add: consumed_def outcome_def Let_def)
qed

lemma drained_window_eq:
  "drained_window =
     \<lparr> memory = [20, 30, 40, 0], buffer_size = 4, write_head = 0, read_head = 0,
       locked = False, allocation_chunk_size = 512 \<rparr>"
  unfolding drained_window_def used_window_eq
  by (simp add: consumed_def Let_def)

lemma drained_window_reachable: "reachable 4 drained_window"
  unfolding drained_window_eq
  by (rule reachable.called[OF used_window_reachable, of "Consumed 2" zero_heap None])
    (simp_all add: used_window_eq consumed_def outcome_def Let_def)

lemma full_window_eq:
  "full_window =
     \<lparr> memory = map zero_junk [0 ..< 512], buffer_size = 512, write_head = 512,
       read_head = 0, locked = False, allocation_chunk_size = 512 \<rparr>"
  unfolding full_window_def Pipe_512
  by (simp add: produced_def)

lemma full_window_reachable: "reachable 512 full_window"
proof -
  have r0: "reachable 512 (projr (Pipe zero_heap 512))"
    by (rule reachable.constructed[of zero_heap]) (simp add: Pipe_512)
  show ?thesis
    unfolding full_window_def
    by (rule reachable.called[OF r0, of "Produced 512" zero_heap None])
      (simp_all add: Pipe_512 produced_def outcome_def)
qed

lemma marked_window_eq:
  "marked_window =
     \<lparr> memory = map zero_junk [0 ..< 16], buffer_size = 16, write_head = 10,
       read_head = 3, locked = False, allocation_chunk_size = 512 \<rparr>"
  unfolding marked_window_def Pipe_16
  by (simp add: produced_def consumed_def Let_def)

lemma wrapping_loop:
  "count_loop 512 0 0 18446744073709551104 (1 :: size_t) = Some 36028797018963967"
proof -
  have below: "\<forall>j<36028797018963966. (1 + of_nat j) * 512 + 0 + 0 < (18446744073709551104 :: size_t)"
  proof (intro allI impI)
    fix j :: nat assume j: "j < 36028797018963966"
    then have "Suc j * unat (512 :: size_t) + unat (0 :: size_t) + unat (0 :: size_t) < 2 ^ 64"
      by simp
    from loop_value[OF this] have "unat (of_nat (Suc j) * 512 + 0 + 0 :: size_t) = Suc j * 512"
      by simp
    with j have "unat (of_nat (Suc j) * 512 + 0 + 0 :: size_t) < unat (18446744073709551104 :: size_t)"
      by simp
    then have "of_nat (Suc j) * 512 + 0 + 0 < (18446744073709551104 :: size_t)"
      by (simp only: word_less_nat_alt)
    then show "(1 + of_nat j) * 512 + 0 + 0 < (18446744073709551104 :: size_t)"
      unfolding one_plus_of_nat .
  qed
  have stop: "\<not> (1 + of_nat 36028797018963966) * 512 + 0 + 0 < (18446744073709551104 :: size_t)"
    by simp
  from count_loop_complete[OF below stop] show ?thesis by simp
qed

lemma grow_used_window:
  "ensureCapacity zero_heap used_window 5 =
     Some (Inr 514,
           used_window\<lparr>memory := copy_live used_window (map zero_junk [0 ..< 516]),
                         buffer_size := 516, write_head := 2, read_head := 0\<rparr>)"
proof -
  have "count_loop 512 1 1 5 (1 :: size_t) = Some 1"
    by (subst count_loop.simps) simp
  then show ?thesis
    by (simp add: used_window_eq ensureCapacity_def grow_def operator_new_def zero_heap_def
        PTRDIFF_MAX_def copy_ok_def wsize_def Let_def word_le_nat_alt)
qed

lemma live_used_window:
  "take 2 (copy_live used_window (map zero_junk [0 ..< 516])) = [30, 40]"
  by (simp add: used_window_eq copy_live_def slice_def del: upt_rec_numeral)

lemma long_loop:
  "count_loop 512 1 1 9223372036854775808 (1 :: size_t) = Some 18014398509481984"
proof -
  have below: "\<forall>j<18014398509481983. (1 + of_nat j) * 512 + 1 + 1 < (9223372036854775808 :: size_t)"
  proof (intro allI impI)
    fix j :: nat assume j: "j < 18014398509481983"
    then have "Suc j * unat (512 :: size_t) + unat (1 :: size_t) + unat (1 :: size_t) < 2 ^ 64"
      by simp
    from loop_value[OF this] have "unat (of_nat (Suc j) * 512 + 1 + 1 :: size_t) = Suc j * 512 + 2"
      by simp
    with j have "unat (of_nat (Suc j) * 512 + 1 + 1 :: size_t) < unat (9223372036854775808 :: size_t)"
      by simp
    then have "of_nat (Suc j) * 512 + 1 + 1 < (9223372036854775808 :: size_t)"
      by (simp only: word_less_nat_alt)
    then show "(1 + of_nat j) * 512 + 1 + 1 < (9223372036854775808 :: size_t)"
      unfolding one_plus_of_nat .
  qed
  have stop: "\<not> (1 + of_nat 18014398509481983) * 512 + 1 + 1 < (9223372036854775808 :: size_t)"
    by simp
  from count_loop_complete[OF below stop] show ?thesis by simp
qed

lemma least_count_used_window: "least_count 512 2 5 1" "least_count 512 2 2000 4"
proof -
  show "least_count 512 2 5 1"
    unfolding least_count_def
  proof (intro conjI allI impI)
    show "(5 :: nat) \<le> 1 * 512 + 2" by simp
  next
    fix c' :: nat assume "5 \<le> c' * 512 + 2"
    then show "1 \<le> c'" by (cases c') simp_all
  qed
  show "least_count 512 2 2000 4"
    unfolding least_count_def
  proof (intro conjI allI impI)
    show "(2000 :: nat) \<le> 4 * 512 + 2" by simp
  next
    fix c' :: nat assume "2000 \<le> c' * 512 + 2"
    then show "4 \<le> c'" by arith
  qed
qed

lemma short_loop: "count_loop 512 1 1 2000 (1 :: size_t) = Some 4"
proof -
  have 4: "count_loop 512 1 1 2000 (4 :: size_t) = Some 4"
    by (subst count_loop.simps) simp
  have 3: "count_loop 512 1 1 2000 (3 :: size_t) = Some 4"
    by (subst count_loop.simps) (simp add: 4)
  have 2: "count_loop 512 1 1 2000 (2 :: size_t) = Some 4"
    by (subst count_loop.simps) (simp add: 3)
  show ?thesis
    by (subst count_loop.simps) (simp add: 2)
qed

lemma grow_small_heap:
  "ensureCapacity small_heap used_window 5 =
     Some (Inr 514,
           used_window\<lparr>memory := copy_live used_window (map zero_junk [0 ..< 516]),
                         buffer_size := 516, write_head := 2, read_head := 0\<rparr>)"
proof -
  have "count_loop 512 1 1 5 (1 :: size_t) = Some 1"
    by (subst count_loop.simps) simp
  then show ?thesis
    by (simp add: used_window_eq ensureCapacity_def grow_def operator_new_def small_heap_def
        PTRDIFF_MAX_def copy_ok_def wsize_def Let_def word_le_nat_alt)
qed

lemma refused_used_window:
  "ensureCapacity small_heap used_window 2000 = Some (Inl Bad_alloc, used_window)"
  using short_loop
  by (simp add: used_window_eq ensureCapacity_def grow_def operator_new_def small_heap_def
      PTRDIFF_MAX_def wsize_def Let_def word_le_nat_alt)

lemma overrun_full_window:
  "ensureCapacity zero_heap full_window 18446744073709551104 =
     Some (Inl Undefined_behaviour, full_window)"
  using wrapping_loop
  by (simp add: full_window_eq ensureCapacity_def grow_def operator_new_def
      zero_heap_def PTRDIFF_MAX_def copy_ok_def wsize_def Let_def word_le_nat_alt)

subsection \<open>C1: the offsets of a reachable window\<close>

text \<open>
  What the code keeps: every window reached from the constructor through calls whose
  preconditions hold and whose behaviour is defined satisfies
  \<open>0 \<le> read_head \<le> write_head \<le> capacity\<close>, and when both offsets are equal they are 0.
  (The preconditions are those of the interface, as numbers: \<^verbatim>\<open>produced(n)\<close> with
  \<open>write_head + n \<le> capacity\<close>, \<^verbatim>\<open>consumed(n)\<close> with \<open>read_head + n \<le> write_head\<close>, every
  mutating call on an unlocked window.)
\<close>

lemma reachable_offsets:
  assumes "reachable sz p"
  shows "0 \<le> read_head p \<and> read_head p \<le> write_head p \<and> write_head p \<le> buffer_size p \<and>
         (read_head p = write_head p \<longrightarrow> read_head p = 0 \<and> write_head p = 0)"
  using reachable_inv[OF assms]
  by (simp add: pipe_inv_def bounds_ok_def empty_at_start_def)

lemma reachable_offsets_examples:
  "reachable 4 used_window \<and>
   read_head used_window = 1 \<and> write_head used_window = 3 \<and> buffer_size used_window = 4 \<and>
   reachable 4 drained_window \<and>
   read_head drained_window = 0 \<and> write_head drained_window = 0"
  using used_window_reachable drained_window_reachable
  by (simp add: used_window_eq drained_window_eq)

text \<open>
  Claim C1. The claim is that the offsets satisfy \<open>0 \<le> read_offset \<le> write_offset \<le>
  capacity\<close> after every sequence of calls whose preconditions hold. The code does not
  keep this when \<^verbatim>\<open>size_t\<close> arithmetic wraps around. The full 512-byte window is reached
  within the preconditions, and \<^verbatim>\<open>ensureCapacity(2\<^sup>6\<^sup>4 - 512)\<close> on it is called within its
  precondition (unlocked): the search stops at \<open>count = 2\<^sup>5\<^sup>5 - 1\<close>, the new size
  \<open>512 + count * 512\<close> wraps to 0, and \<^verbatim>\<open>std::copy\<close> stores the 512 live bytes past a block of
  no bytes; the statements after it set the capacity to 0 and \<open>write_head\<close> to 512.
  Outside the preconditions, but accepted by the check of the code: on the 16-byte window
  with \<open>read_head = 3\<close> and \<open>write_head = 10\<close>, \<^verbatim>\<open>produced(2\<^sup>6\<^sup>4 - 8)\<close> returns normally and
  leaves \<open>write_head = 2\<close>, below \<open>read_head\<close>.
\<close>

theorem offsets_broken_by_wrap_around:
  "reachable 512 full_window \<and>
   precondition full_window (EnsureCapacity 18446744073709551104) \<and>
   count_loop (allocation_chunk_size full_window) (wsize full_window) (read_head full_window)
     18446744073709551104 1 = Some 36028797018963967 \<and>
   buffer_size full_window + 36028797018963967 * allocation_chunk_size full_window = 0 \<and>
   write_head full_window - read_head full_window = 512 \<and>
   ensureCapacity zero_heap full_window 18446744073709551104 =
     Some (Inl Undefined_behaviour, full_window) \<and>
   fst (produced marked_window 18446744073709551608) = Inr () \<and>
   read_head (snd (produced marked_window 18446744073709551608)) = 3 \<and>
   write_head (snd (produced marked_window 18446744073709551608)) = 2 \<and>
   \<not> bounds_ok (snd (produced marked_window 18446744073709551608))"
  using wrapping_loop full_window_reachable
  by (simp add: full_window_eq marked_window_eq ensureCapacity_def grow_def operator_new_def
      zero_heap_def PTRDIFF_MAX_def copy_ok_def wsize_def produced_def bounds_ok_def Let_def
      word_le_nat_alt)

subsection \<open>C2: what a successful \<^verbatim>\<open>ensureCapacity\<close> returns\<close>

text \<open>
  Claim C2. When \<^verbatim>\<open>ensureCapacity(n)\<close> on an unlocked window returns normally, the value
  returned is the tail space \<open>capacity - write_head\<close> of the window afterwards, it is at
  least \<open>n\<close>, and when the tail space before the call was already at least \<open>n\<close> the
  object is unchanged. On a well-formed window the window afterwards is well-formed
  again, so the difference is one of numbers. And the call does return normally: at once,
  with the tail space and the object as it was, when the tail space is at least \<open>n\<close>; after
  packing, on a well-formed window whose tail is shorter than \<open>n\<close> while tail and consumed
  prefix together hold \<open>n\<close> bytes; after growing, on a well-formed window with
  \<open>capacity + n + growth_unit \<le> 2\<^sup>6\<^sup>3\<close>, when the allocator serves the one request made, for
  \<open>capacity + count * growth_unit\<close> bytes with the smallest sufficient \<open>count\<close>.
\<close>

theorem ensureCapacity_returns_tail:
  assumes "\<not> locked p"
  shows "(\<forall>r p'. ensureCapacity heap p n = Some (Inr r, p') \<longrightarrow>
            r = wsize p' \<and> n \<le> r \<and> (n \<le> wsize p \<longrightarrow> p' = p) \<and>
            (pipe_inv p \<longrightarrow>
               pipe_inv p' \<and> unat r = unat (buffer_size p') - unat (write_head p'))) \<and>
         (n \<le> wsize p \<longrightarrow> ensureCapacity heap p n = Some (Inr (wsize p), p)) \<and>
         (bounds_ok p \<and> block_ok p \<and>
          unat (wsize p) < unat n \<and> unat n \<le> unat (wsize p) + unat (read_head p) \<longrightarrow>
            (\<exists>r p'. ensureCapacity heap p n = Some (Inr r, p'))) \<and>
         (pipe_inv p \<and> unat (wsize p) + unat (read_head p) < unat n \<and>
          unat (buffer_size p) + unat n + unat (allocation_chunk_size p) \<le> 2 ^ 63 \<longrightarrow>
            (\<exists>count.
               least_count (unat (allocation_chunk_size p))
                 (unat (wsize p) + unat (read_head p)) (unat n) count \<and>
               (heap (buffer_size p + of_nat count * allocation_chunk_size p) \<noteq> None \<longrightarrow>
                  (\<exists>r p'. ensureCapacity heap p n = Some (Inr r, p')))))"
proof -
  have A: "\<forall>r p'. ensureCapacity heap p n = Some (Inr r, p') \<longrightarrow>
            r = wsize p' \<and> n \<le> r \<and> (n \<le> wsize p \<longrightarrow> p' = p) \<and>
            (pipe_inv p \<longrightarrow>
               pipe_inv p' \<and> unat r = unat (buffer_size p') - unat (write_head p'))"
  proof (intro allI impI)
    fix r p' assume ok: "ensureCapacity heap p n = Some (Inr r, p')"
    note main = ensureCapacity_result[OF assms ok]
    have "pipe_inv p' \<and> unat r = unat (buffer_size p') - unat (write_head p')"
      if inv: "pipe_inv p"
    proof -
      from inv ok have i: "pipe_inv p'" by (rule ensureCapacity_inv)
      from wf_nat(6)[OF pipe_inv_parts(1,3)[OF i]] main i show ?thesis by simp
    qed
    with main show "r = wsize p' \<and> n \<le> r \<and> (n \<le> wsize p \<longrightarrow> p' = p) \<and>
            (pipe_inv p \<longrightarrow>
               pipe_inv p' \<and> unat r = unat (buffer_size p') - unat (write_head p'))"
      by blast
  qed
  have B: "n \<le> wsize p \<longrightarrow> ensureCapacity heap p n = Some (Inr (wsize p), p)"
    using assms by (simp add: tail_branch_returns)
  have C: "bounds_ok p \<and> block_ok p \<and>
          unat (wsize p) < unat n \<and> unat n \<le> unat (wsize p) + unat (read_head p) \<longrightarrow>
            (\<exists>r p'. ensureCapacity heap p n = Some (Inr r, p'))"
  proof
    assume "bounds_ok p \<and> block_ok p \<and>
          unat (wsize p) < unat n \<and> unat n \<le> unat (wsize p) + unat (read_head p)"
    then have "bounds_ok p" "block_ok p" "unat (wsize p) < unat n"
      "unat n \<le> unat (wsize p) + unat (read_head p)" by simp_all
    from pack_branch_returns[OF assms this, of heap]
    show "\<exists>r p'. ensureCapacity heap p n = Some (Inr r, p')" by blast
  qed
  have D: "pipe_inv p \<and> unat (wsize p) + unat (read_head p) < unat n \<and>
          unat (buffer_size p) + unat n + unat (allocation_chunk_size p) \<le> 2 ^ 63 \<longrightarrow>
            (\<exists>count.
               least_count (unat (allocation_chunk_size p))
                 (unat (wsize p) + unat (read_head p)) (unat n) count \<and>
               (heap (buffer_size p + of_nat count * allocation_chunk_size p) \<noteq> None \<longrightarrow>
                  (\<exists>r p'. ensureCapacity heap p n = Some (Inr r, p'))))"
  proof
    assume "pipe_inv p \<and> unat (wsize p) + unat (read_head p) < unat n \<and>
          unat (buffer_size p) + unat n + unat (allocation_chunk_size p) \<le> 2 ^ 63"
    then have "pipe_inv p" "unat (wsize p) + unat (read_head p) < unat n"
      "unat (buffer_size p) + unat n + unat (allocation_chunk_size p) \<le> 2 ^ 63" by simp_all
    from growth_request[OF assms this, of heap]
    show "\<exists>count.
               least_count (unat (allocation_chunk_size p))
                 (unat (wsize p) + unat (read_head p)) (unat n) count \<and>
               (heap (buffer_size p + of_nat count * allocation_chunk_size p) \<noteq> None \<longrightarrow>
                  (\<exists>r p'. ensureCapacity heap p n = Some (Inr r, p')))"
      by blast
  qed
  show ?thesis by (rule conjI[OF A conjI[OF B conjI[OF C D]]])
qed

theorem ensureCapacity_returns_tail_witness:
  "\<not> locked used_window \<and> pipe_inv used_window \<and>
   bounds_ok used_window \<and> block_ok used_window \<and>
   1 \<le> wsize used_window \<and>
   ensureCapacity zero_heap used_window 1 = Some (Inr 1, used_window) \<and>
   \<not> 2 \<le> wsize used_window \<and>
   unat (wsize used_window) < unat (2 :: size_t) \<and>
   unat (2 :: size_t) \<le> unat (wsize used_window) + unat (read_head used_window) \<and>
   ensureCapacity zero_heap used_window 2 =
     Some (Inr 2, used_window\<lparr>memory := [30, 40, 40, 0], write_head := 2, read_head := 0\<rparr>) \<and>
   2 = wsize (used_window\<lparr>memory := [30, 40, 40, 0], write_head := 2, read_head := 0\<rparr>) \<and>
   pipe_inv (used_window\<lparr>memory := [30, 40, 40, 0], write_head := 2, read_head := 0\<rparr>) \<and>
   unat (wsize used_window) + unat (read_head used_window) < unat (5 :: size_t) \<and>
   unat (buffer_size used_window) + unat (5 :: size_t) +
     unat (allocation_chunk_size used_window) \<le> 2 ^ 63 \<and>
   least_count (unat (allocation_chunk_size used_window))
     (unat (wsize used_window) + unat (read_head used_window)) (unat (5 :: size_t)) 1 \<and>
   zero_heap (buffer_size used_window + of_nat 1 * allocation_chunk_size used_window) \<noteq> None \<and>
   (\<exists>r p'. ensureCapacity zero_heap used_window 5 = Some (Inr r, p')) \<and>
   ensureCapacity zero_heap used_window 5 =
     Some (Inr 514,
           used_window\<lparr>memory := copy_live used_window (map zero_junk [0 ..< 516]),
                         buffer_size := 516, write_head := 2, read_head := 0\<rparr>)"
proof -
  let ?packed = "used_window\<lparr>memory := [30, 40, 40, 0], write_head := 2, read_head := 0\<rparr>"
  have e2: "ensureCapacity zero_heap used_window 2 = Some (Inr 2, ?packed)"
    by (simp add: used_window_eq ensureCapacity_def pack_def wsize_def within_def
        memmove_front_def slice_def empty_pipe_def Let_def word_le_nat_alt)
  have u: "\<not> locked used_window" by (simp add: used_window_eq)
  have i: "pipe_inv used_window" "bounds_ok used_window" "block_ok used_window"
    by (simp_all add: used_window_eq pipe_inv_def bounds_ok_def empty_at_start_def block_ok_def
        chunk_ok_def PTRDIFF_MAX_def defaultAllocationChunkSize_def)
  have ws: "wsize used_window = 1" by (simp add: used_window_eq wsize_def)
  have w: "1 \<le> wsize used_window" "\<not> 2 \<le> wsize used_window"
    "unat (wsize used_window) < unat (2 :: size_t)"
    "unat (2 :: size_t) \<le> unat (wsize used_window) + unat (read_head used_window)"
    "unat (wsize used_window) + unat (read_head used_window) < unat (5 :: size_t)"
    "unat (buffer_size used_window) + unat (5 :: size_t) +
       unat (allocation_chunk_size used_window) \<le> 2 ^ 63"
    by (simp_all add: used_window_eq wsize_def word_le_nat_alt)
  have l: "least_count (unat (allocation_chunk_size used_window))
     (unat (wsize used_window) + unat (read_head used_window)) (unat (5 :: size_t)) 1"
  proof -
    have "unat (allocation_chunk_size used_window) = 512"
      "unat (wsize used_window) + unat (read_head used_window) = 2" "unat (5 :: size_t) = 5"
      by (simp_all add: used_window_eq wsize_def)
    then show ?thesis by (simp only: least_count_used_window(1))
  qed
  have h: "zero_heap (buffer_size used_window + of_nat 1 * allocation_chunk_size used_window) \<noteq> None"
    by (simp add: zero_heap_def)
  note t1 = ensureCapacity_returns_tail [OF u, of zero_heap 1]
  note t2 = ensureCapacity_returns_tail [OF u, of zero_heap 2]
  from t1 w(1) have "ensureCapacity zero_heap used_window 1 = Some (Inr (wsize used_window), used_window)"
    by blast
  then have r1: "ensureCapacity zero_heap used_window 1 = Some (Inr 1, used_window)"
    by (simp only: ws)
  from t2 e2 i(1) have r2: "2 = wsize ?packed" "pipe_inv ?packed" by blast+
  have "zero_heap m \<noteq> None" for m by (simp add: zero_heap_def)
  with ensureCapacity_returns_tail [OF u, of zero_heap 5] i(1) w(5,6)
  have r5: "\<exists>r p'. ensureCapacity zero_heap used_window 5 = Some (Inr r, p')" by blast
  show ?thesis
    by (intro conjI u i w r1 e2 r2 l h r5 grow_used_window)
qed

subsection \<open>C3: growing\<close>

text \<open>
  Claim C3, as stated: on every unlocked window, \<^verbatim>\<open>ensureCapacity(n)\<close> with \<open>n\<close> larger
  than tail space plus consumed prefix grows the buffer. It does not for every \<open>n\<close>: on
  the used window, \<open>n = 2\<^sup>6\<^sup>3\<close> asks \<^verbatim>\<open>new\<close> for more than \<^verbatim>\<open>PTRDIFF_MAX\<close> bytes, which
  throws and leaves the window as it was, and for \<open>n = 2\<^sup>6\<^sup>4 - 1\<close> the search for the count
  does not return.
\<close>

theorem ensureCapacity_grows_counterexample:
  "reachable 4 used_window \<and> \<not> locked used_window \<and>
   unat (wsize used_window) + unat (read_head used_window) < unat (9223372036854775808 :: size_t) \<and>
   ensureCapacity zero_heap used_window 9223372036854775808 = Some (Inl Bad_alloc, used_window) \<and>
   ensureCapacity zero_heap used_window 18446744073709551615 = None"
proof -
  have "count_loop 512 1 1 18446744073709551615 (1 :: size_t) = None"
    unfolding size_max by (rule count_loop_diverges) (rule even_below_max, simp_all)
  with long_loop used_window_reachable show ?thesis
    by (simp add: used_window_eq ensureCapacity_def grow_def operator_new_def zero_heap_def
        PTRDIFF_MAX_def wsize_def Let_def word_le_nat_alt)
qed

text \<open>
  Claim C3, amended. Let the window be reached from \<^verbatim>\<open>Pipe(sz)\<close> through calls whose
  preconditions hold, unlocked, and let \<open>n\<close> exceed tail space plus consumed prefix.
  The growth unit is \<open>max 512 m\<close> for the smallest multiple \<open>m\<close> of 512 that is at least
  \<open>sz\<close>. Whenever \<^verbatim>\<open>ensureCapacity(n)\<close> returns normally with defined behaviour, the capacity
  has grown by \<open>count\<close> growth units for the smallest \<open>count\<close> with
  \<open>count * growth_unit + tail_space + read_head \<ge> n\<close>, the new block has that size, its
  first bytes are the bytes that were at \<open>[read_head, write_head)\<close>, \<open>write_head\<close> is the
  old \<open>write_head - read_head\<close>, \<open>read_head\<close> is 0, the growth unit is unchanged and the
  value returned is the new tail space, at least \<open>n\<close>. The behaviour is undefined
  (\<^verbatim>\<open>std::copy\<close> past the new block) only when the \<^verbatim>\<open>size_t\<close> sum
  \<open>capacity + count * growth_unit\<close> has wrapped around \<open>2\<^sup>6\<^sup>4\<close> to less than the number of
  live bytes. When \<open>capacity + n + growth_unit \<le> 2\<^sup>6\<^sup>3\<close> the call always returns: normally
  if the allocator serves the one request made, for \<open>capacity + count * growth_unit\<close> bytes
  with that smallest \<open>count\<close>, and by throwing \<^verbatim>\<open>bad_alloc\<close> with the window unchanged if
  it does not. Whenever the call throws \<^verbatim>\<open>bad_alloc\<close> the window is unchanged.
\<close>

theorem ensureCapacity_grows:
  assumes "reachable sz p" "\<not> locked p" "unat (wsize p) + unat (read_head p) < unat n"
  shows "(\<exists>m. least_multiple 512 (unat sz) m \<and> unat (allocation_chunk_size p) = max 512 m) \<and>
         (\<forall>r p'. ensureCapacity heap p n = Some (Inr r, p') \<longrightarrow>
            (\<exists>count.
               least_count (unat (allocation_chunk_size p))
                 (unat (wsize p) + unat (read_head p)) (unat n) count \<and>
               unat (buffer_size p') =
                 unat (buffer_size p) + count * unat (allocation_chunk_size p) \<and>
               length (memory p') = unat (buffer_size p') \<and>
               take (unat (rsize p)) (memory p') = getAvailableReadSpace p \<and>
               length (getAvailableReadSpace p) = unat (rsize p) \<and>
               write_head p' = write_head p - read_head p \<and>
               unat (write_head p') = unat (write_head p) - unat (read_head p) \<and>
               read_head p' = 0 \<and>
               allocation_chunk_size p' = allocation_chunk_size p \<and>
               r = wsize p' \<and> n \<le> r)) \<and>
         (\<forall>p'. ensureCapacity heap p n = Some (Inl Undefined_behaviour, p') \<longrightarrow>
            (\<exists>count.
               count_loop (allocation_chunk_size p) (wsize p) (read_head p) n 1 = Some count \<and>
               buffer_size p + count * allocation_chunk_size p < rsize p \<and>
               2 ^ 64 \<le> unat (buffer_size p) + unat count * unat (allocation_chunk_size p))) \<and>
         (unat (buffer_size p) + unat n + unat (allocation_chunk_size p) \<le> 2 ^ 63 \<longrightarrow>
            (\<exists>count.
               least_count (unat (allocation_chunk_size p))
                 (unat (wsize p) + unat (read_head p)) (unat n) count \<and>
               unat (buffer_size p + of_nat count * allocation_chunk_size p) =
                 unat (buffer_size p) + count * unat (allocation_chunk_size p) \<and>
               (heap (buffer_size p + of_nat count * allocation_chunk_size p) \<noteq> None \<longrightarrow>
                  (\<exists>r p'. ensureCapacity heap p n = Some (Inr r, p'))) \<and>
               (heap (buffer_size p + of_nat count * allocation_chunk_size p) = None \<longrightarrow>
                  ensureCapacity heap p n = Some (Inl Bad_alloc, p)))) \<and>
         (\<forall>p'. ensureCapacity heap p n = Some (Inl Bad_alloc, p') \<longrightarrow> p' = p)"
proof -
  from reachable_inv[OF assms(1)] have inv: "pipe_inv p" by simp
  note b = pipe_inv_parts[OF inv]
  note n = wf_nat[OF b(1) b(3)]
  have A: "\<exists>m. least_multiple 512 (unat sz) m \<and> unat (allocation_chunk_size p) = max 512 m"
    using assms(1) by (rule growth_unit)
  have B: "\<forall>r p'. ensureCapacity heap p n = Some (Inr r, p') \<longrightarrow>
            (\<exists>count.
               least_count (unat (allocation_chunk_size p))
                 (unat (wsize p) + unat (read_head p)) (unat n) count \<and>
               unat (buffer_size p') =
                 unat (buffer_size p) + count * unat (allocation_chunk_size p) \<and>
               length (memory p') = unat (buffer_size p') \<and>
               take (unat (rsize p)) (memory p') = getAvailableReadSpace p \<and>
               length (getAvailableReadSpace p) = unat (rsize p) \<and>
               write_head p' = write_head p - read_head p \<and>
               unat (write_head p') = unat (write_head p) - unat (read_head p) \<and>
               read_head p' = 0 \<and>
               allocation_chunk_size p' = allocation_chunk_size p \<and>
               r = wsize p' \<and> n \<le> r)"
  proof (intro allI impI)
    fix r p' assume ok: "ensureCapacity heap p n = Some (Inr r, p')"
    from growth_is_minimal[OF assms(2) inv assms(3) ok] obtain count nmem where
      least: "least_count (unat (allocation_chunk_size p))
               (unat (wsize p) + unat (read_head p)) (unat n) count"
      and cap: "unat (buffer_size p') =
               unat (buffer_size p) + count * unat (allocation_chunk_size p)"
      and cp: "copy_ok p nmem"
      and p': "p' = p\<lparr>memory := copy_live p nmem,
                    buffer_size := buffer_size p + of_nat count * allocation_chunk_size p,
                    write_head := write_head p - read_head p,
                    read_head := 0\<rparr>"
      and r: "r = wsize p'" by blast
    from inv ok have inv': "pipe_inv p'" by (rule ensureCapacity_inv)
    note n' = wf_nat[OF pipe_inv_parts(1,3)[OF inv']]
    have live: "take (unat (rsize p)) (memory p') = getAvailableReadSpace p"
      "length (getAvailableReadSpace p) = unat (rsize p)"
      using length_copy_live(2,3)[OF cp]
      by (simp_all add: p' rsize_def getAvailableReadSpace_def)
    have rn: "r = wsize p'" "n \<le> wsize p'"
      using ensureCapacity_result[OF assms(2) ok] by blast+
    show "\<exists>count.
               least_count (unat (allocation_chunk_size p))
                 (unat (wsize p) + unat (read_head p)) (unat n) count \<and>
               unat (buffer_size p') =
                 unat (buffer_size p) + count * unat (allocation_chunk_size p) \<and>
               length (memory p') = unat (buffer_size p') \<and>
               take (unat (rsize p)) (memory p') = getAvailableReadSpace p \<and>
               length (getAvailableReadSpace p) = unat (rsize p) \<and>
               write_head p' = write_head p - read_head p \<and>
               unat (write_head p') = unat (write_head p) - unat (read_head p) \<and>
               read_head p' = 0 \<and>
               allocation_chunk_size p' = allocation_chunk_size p \<and>
               r = wsize p' \<and> n \<le> r"
      using least cap live n'(3) n(5) rn
      by (intro exI[of _ count]) (simp add: p' rsize_def)
  qed
  have C: "\<forall>p'. ensureCapacity heap p n = Some (Inl Undefined_behaviour, p') \<longrightarrow>
            (\<exists>count.
               count_loop (allocation_chunk_size p) (wsize p) (read_head p) n 1 = Some count \<and>
               buffer_size p + count * allocation_chunk_size p < rsize p \<and>
               2 ^ 64 \<le> unat (buffer_size p) + unat count * unat (allocation_chunk_size p))"
  proof (intro allI impI)
    fix p' assume "ensureCapacity heap p n = Some (Inl Undefined_behaviour, p')"
    from undefined_only_by_wrap[OF assms(2) b(1) b(3) assms(3) this]
    show "\<exists>count.
               count_loop (allocation_chunk_size p) (wsize p) (read_head p) n 1 = Some count \<and>
               buffer_size p + count * allocation_chunk_size p < rsize p \<and>
               2 ^ 64 \<le> unat (buffer_size p) + unat count * unat (allocation_chunk_size p)"
      by (rule conjunct2)
  qed
  have D: "unat (buffer_size p) + unat n + unat (allocation_chunk_size p) \<le> 2 ^ 63 \<longrightarrow>
            (\<exists>count.
               least_count (unat (allocation_chunk_size p))
                 (unat (wsize p) + unat (read_head p)) (unat n) count \<and>
               unat (buffer_size p + of_nat count * allocation_chunk_size p) =
                 unat (buffer_size p) + count * unat (allocation_chunk_size p) \<and>
               (heap (buffer_size p + of_nat count * allocation_chunk_size p) \<noteq> None \<longrightarrow>
                  (\<exists>r p'. ensureCapacity heap p n = Some (Inr r, p'))) \<and>
               (heap (buffer_size p + of_nat count * allocation_chunk_size p) = None \<longrightarrow>
                  ensureCapacity heap p n = Some (Inl Bad_alloc, p)))"
    using growth_request[OF assms(2) inv assms(3), of heap] by (rule impI)
  have E: "\<forall>p'. ensureCapacity heap p n = Some (Inl Bad_alloc, p') \<longrightarrow> p' = p"
    by (intro allI impI) (rule bad_alloc_unchanged)
  show ?thesis by (rule conjI[OF A conjI[OF B conjI[OF C conjI[OF D E]]]])
qed

theorem ensureCapacity_grows_witness:
  "reachable 4 used_window \<and> \<not> locked used_window \<and>
   unat (wsize used_window) + unat (read_head used_window) < unat (5 :: size_t) \<and>
   unat (buffer_size used_window) + unat (5 :: size_t) +
     unat (allocation_chunk_size used_window) \<le> 2 ^ 63 \<and>
   least_count 512 2 5 1 \<and>
   small_heap (buffer_size used_window + of_nat 1 * allocation_chunk_size used_window) \<noteq> None \<and>
   ensureCapacity small_heap used_window 5 =
     Some (Inr 514,
           used_window\<lparr>memory := copy_live used_window (map zero_junk [0 ..< 516]),
                         buffer_size := 516, write_head := 2, read_head := 0\<rparr>) \<and>
   take 2 (copy_live used_window (map zero_junk [0 ..< 516])) = [30, 40] \<and>
   getAvailableReadSpace used_window = [30, 40] \<and>
   unat (wsize used_window) + unat (read_head used_window) < unat (2000 :: size_t) \<and>
   unat (buffer_size used_window) + unat (2000 :: size_t) +
     unat (allocation_chunk_size used_window) \<le> 2 ^ 63 \<and>
   least_count 512 2 2000 4 \<and>
   small_heap (buffer_size used_window + of_nat 4 * allocation_chunk_size used_window) = None \<and>
   ensureCapacity small_heap used_window 2000 = Some (Inl Bad_alloc, used_window) \<and>
   reachable 512 full_window \<and> \<not> locked full_window \<and>
   unat (wsize full_window) + unat (read_head full_window) <
     unat (18446744073709551104 :: size_t) \<and>
   ensureCapacity zero_heap full_window 18446744073709551104 =
     Some (Inl Undefined_behaviour, full_window) \<and>
   (\<exists>count.
      count_loop (allocation_chunk_size full_window) (wsize full_window) (read_head full_window)
        18446744073709551104 1 = Some count \<and>
      buffer_size full_window + count * allocation_chunk_size full_window < rsize full_window \<and>
      2 ^ 64 \<le> unat (buffer_size full_window) +
                 unat count * unat (allocation_chunk_size full_window))"
proof -
  have u: "\<not> locked used_window" by (simp add: used_window_eq)
  have b: "unat (wsize used_window) + unat (read_head used_window) < unat (5 :: size_t)"
    "unat (buffer_size used_window) + unat (5 :: size_t) +
       unat (allocation_chunk_size used_window) \<le> 2 ^ 63"
    "unat (wsize used_window) + unat (read_head used_window) < unat (2000 :: size_t)"
    "unat (buffer_size used_window) + unat (2000 :: size_t) +
       unat (allocation_chunk_size used_window) \<le> 2 ^ 63"
    by (simp_all add: used_window_eq wsize_def)
  have h: "small_heap (buffer_size used_window + of_nat 1 * allocation_chunk_size used_window) \<noteq> None"
    "small_heap (buffer_size used_window + of_nat 4 * allocation_chunk_size used_window) = None"
    by (simp_all add: used_window_eq small_heap_def word_le_nat_alt)
  have v: "getAvailableReadSpace used_window = [30, 40]"
    by (simp add: used_window_eq getAvailableReadSpace_def rsize_def slice_def)
  have fu: "\<not> locked full_window" by (simp add: full_window_eq)
  have fb: "unat (wsize full_window) + unat (read_head full_window) <
     unat (18446744073709551104 :: size_t)"
    by (simp add: full_window_eq wsize_def)
  note t5 = ensureCapacity_grows [OF used_window_reachable u b(1), of small_heap]
  note t2000 = ensureCapacity_grows [OF used_window_reachable u b(3), of small_heap]
  note tf = ensureCapacity_grows [OF full_window_reachable fu fb, of zero_heap]
  note d2000 = t2000[THEN conjunct2, THEN conjunct2, THEN conjunct2, THEN conjunct1, THEN mp, OF b(4)]
  from d2000 obtain count where
    all: "least_count (unat (allocation_chunk_size used_window))
            (unat (wsize used_window) + unat (read_head used_window)) (unat (2000 :: size_t)) count \<and>
          unat (buffer_size used_window + of_nat count * allocation_chunk_size used_window) =
            unat (buffer_size used_window) + count * unat (allocation_chunk_size used_window) \<and>
          (small_heap (buffer_size used_window +
             of_nat count * allocation_chunk_size used_window) \<noteq> None \<longrightarrow>
             (\<exists>r p'. ensureCapacity small_heap used_window 2000 = Some (Inr r, p'))) \<and>
          (small_heap (buffer_size used_window +
             of_nat count * allocation_chunk_size used_window) = None \<longrightarrow>
             ensureCapacity small_heap used_window 2000 = Some (Inl Bad_alloc, used_window))" ..
  note c = all[THEN conjunct1]
  note refuse = all[THEN conjunct2, THEN conjunct2, THEN conjunct2]
  have "unat (allocation_chunk_size used_window) = 512"
    "unat (wsize used_window) + unat (read_head used_window) = 2" "unat (2000 :: size_t) = 2000"
    by (simp_all add: used_window_eq wsize_def)
  with c have "least_count 512 2 2000 count" by (simp only:)
  then have "count = 4" using least_count_used_window(2) by (rule least_count_unique)
  with h(2) have "small_heap (buffer_size used_window +
             of_nat count * allocation_chunk_size used_window) = None" by (simp only:)
  with refuse
  have refused: "ensureCapacity small_heap used_window 2000 = Some (Inl Bad_alloc, used_window)"
    by (rule mp)
  from tf overrun_full_window
  have wrapped: "\<exists>count.
      count_loop (allocation_chunk_size full_window) (wsize full_window) (read_head full_window)
        18446744073709551104 1 = Some count \<and>
      buffer_size full_window + count * allocation_chunk_size full_window < rsize full_window \<and>
      2 ^ 64 \<le> unat (buffer_size full_window) +
                 unat count * unat (allocation_chunk_size full_window)"
    by blast
  from t5 grow_small_heap
  have "take (unat (rsize used_window))
          (memory (used_window\<lparr>memory := copy_live used_window (map zero_junk [0 ..< 516]),
                         buffer_size := 516, write_head := 2, read_head := 0\<rparr>)) =
        getAvailableReadSpace used_window"
    by blast
  then have live: "take 2 (copy_live used_window (map zero_junk [0 ..< 516])) = [30, 40]"
    unfolding v by (simp add: used_window_eq rsize_def del: upt_rec_numeral)
  show ?thesis
    by (intro conjI used_window_reachable u b least_count_used_window h grow_small_heap live v
        refused full_window_reachable fu fb overrun_full_window wrapped)
qed

subsection \<open>C4: compaction\<close>

text \<open>
  Claim C4. On an unlocked window with \<open>read_head = r \<le> write_head = w \<le> capacity\<close>,
  \<^verbatim>\<open>pack\<close> returns normally, leaves \<open>read_head = 0\<close> and \<open>write_head = w - r\<close>, the first
  \<open>w - r\<close> bytes of the storage are the bytes that were at \<open>[r, w)\<close>, the capacity (and the
  size of the block) is unchanged, and the value returned is true exactly when \<open>w = r\<close>.
\<close>

theorem pack_compacts:
  assumes "\<not> locked p" "bounds_ok p" "block_ok p"
  shows "\<exists>p'. pack p = (Inr (write_head p = read_head p), p') \<and>
          read_head p' = 0 \<and>
          write_head p' = write_head p - read_head p \<and>
          unat (write_head p') = unat (write_head p) - unat (read_head p) \<and>
          take (unat (write_head p')) (memory p') =
            slice (read_head p) (write_head p - read_head p) (memory p) \<and>
          length (slice (read_head p) (write_head p - read_head p) (memory p)) =
            unat (write_head p) - unat (read_head p) \<and>
          buffer_size p' = buffer_size p \<and> length (memory p') = length (memory p)"
proof -
  from assms have le: "unat (read_head p) \<le> unat (write_head p)"
      "unat (write_head p) \<le> length (memory p)"
    by (simp_all add: bounds_ok_def block_ok_def word_le_nat_alt)
  then have d: "unat (write_head p - read_head p) = unat (write_head p) - unat (read_head p)"
    by (simp add: unat_sub word_le_nat_alt)
  show ?thesis
  proof (cases "read_head p = write_head p")
    case True
    with assms show ?thesis
      by (simp add: pack_def empty_pipe_def slice_def)
  next
    case False
    from d le have w: "within (read_head p) (write_head p - read_head p) (memory p)"
      by (simp add: within_def)
    have ne: "write_head p - read_head p \<noteq> 0" using False by simp
    show ?thesis using assms False w d le ne
      by (auto simp add: pack_def empty_pipe_def slice_def memmove_front_def Let_def)
  qed
qed

theorem pack_compacts_witness:
  "\<not> locked example_window \<and> bounds_ok example_window \<and> block_ok example_window \<and>
   pack example_window =
     (Inr False,
      \<lparr> memory = [20, 30, 30, 40], buffer_size = 4, write_head = 2, read_head = 0,
        locked = False, allocation_chunk_size = 512 \<rparr>)"
  using pack_compacts [of example_window]
  by (simp add: example_window_def bounds_ok_def block_ok_def PTRDIFF_MAX_def pack_def
      within_def memmove_front_def slice_def empty_pipe_def Let_def)

subsection \<open>C5: marking more than was granted\<close>

text \<open>
  What the code does when the sum it compares does not wrap: \<^verbatim>\<open>produced(n)\<close> on an
  unlocked window throws exactly when \<open>write_head + n\<close> exceeds the capacity and otherwise
  advances \<open>write_head\<close> by \<open>n\<close>; \<^verbatim>\<open>consumed(n)\<close> throws exactly when \<open>read_head + n\<close> exceeds
  \<open>write_head\<close> and otherwise advances \<open>read_head\<close> by \<open>n\<close>, resetting both offsets to 0 when
  they meet. A call that throws leaves the window as it was.
\<close>

lemma produced_consumed_without_wrap:
  "(unat (write_head p) + unat n < 2 ^ 64 \<longrightarrow>
      produced p n =
        (if locked p then (Inl (Logic_error Buffer_locked), p)
         else if unat (write_head p) + unat n > unat (buffer_size p)
           then (Inl (Logic_error Produced_exceeds), p)
         else (Inr (), p\<lparr>write_head := write_head p + n\<rparr>)) \<and>
      unat (write_head p + n) = unat (write_head p) + unat n) \<and>
   (unat (read_head p) + unat n < 2 ^ 64 \<longrightarrow>
      consumed p n =
        (if locked p then (Inl (Logic_error Buffer_locked), p)
         else if unat (read_head p) + unat n > unat (write_head p)
           then (Inl (Logic_error Consumed_exceeds), p)
         else if read_head p + n = write_head p
           then (Inr (), p\<lparr>read_head := 0, write_head := 0\<rparr>)
         else (Inr (), p\<lparr>read_head := read_head p + n\<rparr>)) \<and>
      unat (read_head p + n) = unat (read_head p) + unat n)"
proof (intro conjI impI)
  assume "unat (write_head p) + unat n < 2 ^ 64"
  then show u: "unat (write_head p + n) = unat (write_head p) + unat n"
    by (simp add: unat_add_lem[THEN iffD1])
  then show "produced p n =
        (if locked p then (Inl (Logic_error Buffer_locked), p)
         else if unat (write_head p) + unat n > unat (buffer_size p)
           then (Inl (Logic_error Produced_exceeds), p)
         else (Inr (), p\<lparr>write_head := write_head p + n\<rparr>))"
    by (simp add: produced_def word_less_nat_alt)
next
  assume "unat (read_head p) + unat n < 2 ^ 64"
  then show u: "unat (read_head p + n) = unat (read_head p) + unat n"
    by (simp add: unat_add_lem[THEN iffD1])
  then show "consumed p n =
        (if locked p then (Inl (Logic_error Buffer_locked), p)
         else if unat (read_head p) + unat n > unat (write_head p)
           then (Inl (Logic_error Consumed_exceeds), p)
         else if read_head p + n = write_head p
           then (Inr (), p\<lparr>read_head := 0, write_head := 0\<rparr>)
         else (Inr (), p\<lparr>read_head := read_head p + n\<rparr>))"
    by (simp add: consumed_def word_less_nat_alt Let_def)
qed

text \<open>
  Claim C5. The claim is that \<^verbatim>\<open>produced(n)\<close> throws whenever \<open>write_offset + n\<close> exceeds the
  capacity and \<^verbatim>\<open>consumed(n)\<close> whenever \<open>read_offset + n\<close> exceeds \<open>write_offset\<close>. The
  code compares the \<^verbatim>\<open>size_t\<close> sums, which wrap. On the 16-byte window with
  \<open>read_head = 3\<close> and \<open>write_head = 10\<close> (\<open>marked_window\<close>: \<^verbatim>\<open>Pipe(16)\<close>, \<^verbatim>\<open>produced(10)\<close>,
  \<^verbatim>\<open>consumed(3)\<close>), \<^verbatim>\<open>produced(2\<^sup>6\<^sup>4 - 8)\<close> returns normally and leaves \<open>write_head = 2\<close>,
  below \<open>read_head\<close>; \<^verbatim>\<open>consumed(2\<^sup>6\<^sup>4 - 1)\<close> returns normally and moves \<open>read_head\<close> back
  to 2.
\<close>

theorem produced_consumed_wrap:
  "read_head marked_window = 3 \<and> write_head marked_window = 10 \<and>
   buffer_size marked_window = 16 \<and> \<not> locked marked_window \<and>
   unat (write_head marked_window) + unat (18446744073709551608 :: size_t) >
     unat (buffer_size marked_window) \<and>
   produced marked_window 18446744073709551608 = (Inr (), marked_window\<lparr>write_head := 2\<rparr>) \<and>
   unat (read_head marked_window) + unat (18446744073709551615 :: size_t) >
     unat (write_head marked_window) \<and>
   consumed marked_window 18446744073709551615 = (Inr (), marked_window\<lparr>read_head := 2\<rparr>)"
  by (simp add: marked_window_eq produced_def consumed_def Let_def)

subsection \<open>C6: lock gating\<close>

text \<open>
  Claim C6. While the window is locked, \<^verbatim>\<open>ensureCapacity\<close>, \<^verbatim>\<open>produced\<close>, \<^verbatim>\<open>consumed\<close>,
  \<^verbatim>\<open>pack\<close>, \<^verbatim>\<open>clear\<close>, \<^verbatim>\<open>produce\<close> and \<^verbatim>\<open>consume\<close> throw the logic error "Buffer locked"
  and leave the whole object as it was (storage, capacity and both offsets included).
  \<^verbatim>\<open>lock\<close> throws exactly when the window is locked already and \<^verbatim>\<open>unlock\<close> exactly when
  it is not; otherwise they flip the flag and change nothing else.
\<close>

theorem lock_gating:
  "(locked p \<longrightarrow>
      ensureCapacity heap p n = Some (Inl (Logic_error Buffer_locked), p) \<and>
      produced p n = (Inl (Logic_error Buffer_locked), p) \<and>
      consumed p n = (Inl (Logic_error Buffer_locked), p) \<and>
      pack p = (Inl (Logic_error Buffer_locked), p) \<and>
      clear p = (Inl (Logic_error Buffer_locked), p) \<and>
      produce producer p = (Inl (Logic_error Buffer_locked), p) \<and>
      consume consumer p = (Inl (Logic_error Buffer_locked), p)) \<and>
   lock p = (if locked p then (Inl (Logic_error Already_locked), p)
             else (Inr (), p\<lparr>locked := True\<rparr>)) \<and>
   unlock p = (if locked p then (Inr (), p\<lparr>locked := False\<rparr>)
               else (Inl (Logic_error Not_locked), p))"
  by (simp add: ensureCapacity_def produced_def consumed_def pack_def clear_def produce_def
      consume_def lock_def unlock_def)

theorem lock_gating_witness:
  "locked locked_window \<and>
   ensureCapacity zero_heap locked_window 1 = Some (Inl (Logic_error Buffer_locked), locked_window) \<and>
   consumed locked_window 1 = (Inl (Logic_error Buffer_locked), locked_window) \<and>
   produce (write_bytes [7]) locked_window = (Inl (Logic_error Buffer_locked), locked_window) \<and>
   lock locked_window = (Inl (Logic_error Already_locked), locked_window) \<and>
   unlock locked_window = (Inr (), example_window)"
  using lock_gating [of locked_window zero_heap 1 "write_bytes [7]" "handed [] 0"]
  by (simp add: locked_window_def example_window_def)

subsection \<open>C7: writing through the writable view and reading through the readable view\<close>

text \<open>
  Claim C7, as stated: after \<open>k\<close> bytes were written through \<^verbatim>\<open>produce\<close>, the consumer
  callback of \<^verbatim>\<open>consume\<close> is handed exactly those \<open>k\<close> bytes. This fails on a window that
  still holds unread bytes: the example window holds 20 and 30, and after the byte 7 was
  produced the readable view is 20, 30, 7; a consumer waiting for exactly the byte 7 is
  not handed it.
\<close>

theorem write_then_read_counterexample:
  "\<not> locked example_window \<and> length [7 :: byte] \<le> unat (wsize example_window) \<and>
   produce (write_bytes [7]) example_window =
     (Inr 1, example_window\<lparr>memory := [10, 20, 30, 7], write_head := 4\<rparr>) \<and>
   getAvailableReadSpace (example_window\<lparr>memory := [10, 20, 30, 7], write_head := 4\<rparr>) =
     [20, 30, 7] \<and>
   consume (handed [7] 1) (example_window\<lparr>memory := [10, 20, 30, 7], write_head := 4\<rparr>) =
     (Inr 0, example_window\<lparr>memory := [10, 20, 30, 7], write_head := 4\<rparr>)"
  by (simp add: example_window_def wsize_def rsize_def produce_def produced_def consume_def
      write_bytes_def handed_def within_def getAvailableWriteSpace_def getAvailableReadSpace_def
      slice_def store_at_def Let_def word_sless_alt)

text \<open>
  Claim C7, amended. On an unlocked well-formed window whose tail holds \<open>k\<close> bytes,
  \<^verbatim>\<open>produce\<close> with a callback that stores \<open>k\<close> bytes and returns \<open>k\<close> returns \<open>k\<close>, and the
  view that \<^verbatim>\<open>consume\<close> then hands to its callback is the bytes that were unread before
  followed by exactly those \<open>k\<close> bytes in order (hence exactly those bytes when the
  window was empty). When that callback returns \<open>k\<close>, \<^verbatim>\<open>consume\<close> returns \<open>k\<close> and the
  first \<open>k\<close> bytes of that view are gone from the readable window.
\<close>

theorem write_then_read:
  assumes "\<not> locked p" "bounds_ok p" "block_ok p" "length bs \<le> unat (wsize p)"
  shows "\<exists>p1. produce (write_bytes bs) p = (Inr (of_nat (length bs)), p1) \<and>
           getAvailableReadSpace p1 = getAvailableReadSpace p @ bs \<and>
           (\<forall>consumer. consumer (getAvailableReadSpace p @ bs) = of_nat (length bs) \<longrightarrow>
              (\<exists>p2. consume consumer p1 = (Inr (of_nat (length bs)), p2) \<and>
                    getAvailableReadSpace p2 = drop (length bs) (getAvailableReadSpace p @ bs)))"
proof -
  note n = wf_nat[OF assms(2,3)]
  define k :: size_t where "k = of_nat (length bs)"
  define w r where "w = unat (write_head p)" and "r = unat (read_head p)"
  define mem1 where "mem1 = take w (memory p) @ bs @ drop (w + length bs) (memory p)"
  define p1 where "p1 = p\<lparr>memory := mem1, write_head := write_head p + k\<rparr>"
  have uk: "unat k = length bs" unfolding k_def using assms(4) by (rule unat_of_nat_length)
  have fits: "w + length bs \<le> length (memory p)" "r \<le> w"
    using n assms(4) by (simp_all add: w_def r_def)
  have pr: "produce (write_bytes bs) p = (Inr k, p1)"
    using produce_write_bytes[OF assms] by (simp add: p1_def mem1_def k_def w_def)
  have len1: "length mem1 = length (memory p)"
    using fits by (simp add: mem1_def)
  have "unat (write_head p) + unat k < 2 ^ 64" using uk assms(4) n by simp
  then have uw: "unat (write_head p + k) = w + length bs"
    using uk by (simp add: unat_add_lem[THEN iffD1] w_def)
  have b1: "bounds_ok p1" "block_ok p1"
    using assms(2,3) n uw assms(4) len1
    by (simp_all add: bounds_ok_def block_ok_def p1_def word_le_nat_alt w_def)
  note n1 = wf_nat[OF b1]
  note v1 = views_within[OF b1]
  have old: "getAvailableReadSpace p = drop r (take w (memory p))"
    using n by (simp add: getAvailableReadSpace_def slice_def drop_take w_def r_def)
  have ur1: "unat (rsize p1) = (w - r) + length bs"
    using n1(5) uw fits by (simp add: p1_def r_def)
  have "getAvailableReadSpace p1 = take (w - r + length bs) (drop r mem1)"
    using ur1 by (simp add: getAvailableReadSpace_def slice_def p1_def r_def)
  also have "\<dots> = drop r (take w (memory p)) @ bs"
    using fits by (simp add: mem1_def)
  also have "\<dots> = getAvailableReadSpace p @ bs" by (simp only: old)
  finally have view1: "getAvailableReadSpace p1 = getAvailableReadSpace p @ bs" .
  have cons: "\<exists>p2. consume consumer p1 = (Inr k, p2) \<and>
                getAvailableReadSpace p2 = drop (length bs) (getAvailableReadSpace p @ bs)"
    if g: "consumer (getAvailableReadSpace p @ bs) = k" for consumer
  proof (cases "length bs = 0")
    case True
    then have "k = 0" by (simp add: k_def)
    then show ?thesis using g v1(1) assms(1) True view1
      by (simp add: consume_def Let_def p1_def)
  next
    case False
    with uk have "0 < unat k" by simp
    moreover have "unat k < 2 ^ 63" using uk assms(4) n by linarith
    ultimately have pos: "0 <s k" by (rule ssize_positive)
    have "unat (read_head p) + unat k < 2 ^ 64" using uk assms(4) n by simp
    then have ur: "unat (read_head p + k) = r + length bs"
      using uk by (simp add: unat_add_lem[THEN iffD1] r_def)
    with uw fits have nover: "\<not> write_head p + k < read_head p + k"
      by (simp add: word_less_nat_alt)
    show ?thesis
    proof (cases "read_head p = write_head p")
      case True
      then have "getAvailableReadSpace p = []" by (simp add: getAvailableReadSpace_def slice_def rsize_def)
      then show ?thesis using g v1(1) assms(1) view1 pos nover True
        by (simp add: consume_def consumed_def Let_def p1_def getAvailableReadSpace_def slice_def rsize_def)
    next
      case neq: False
      then have ne: "read_head p + k \<noteq> write_head p + k" by simp
      have "unat (write_head p + k - (read_head p + k)) = w - r"
        using n(5) by (simp add: rsize_def w_def r_def)
      then have "getAvailableReadSpace (p1\<lparr>read_head := read_head p + k\<rparr>) =
                 drop (length bs) (getAvailableReadSpace p1)"
        using ur ur1
        by (simp add: getAvailableReadSpace_def slice_def rsize_def p1_def drop_take add.commute r_def[symmetric])
      then show ?thesis using g v1(1) assms(1) view1 pos nover ne
        by (simp add: consume_def consumed_def Let_def p1_def)
    qed
  qed
  from pr view1 cons show ?thesis unfolding k_def by blast
qed

theorem write_then_read_witness:
  "\<not> locked example_window \<and> bounds_ok example_window \<and> block_ok example_window \<and>
   length [7 :: byte] \<le> unat (wsize example_window) \<and>
   produce (write_bytes [7]) example_window =
     (Inr 1, example_window\<lparr>memory := [10, 20, 30, 7], write_head := 4\<rparr>) \<and>
   consume (handed [20, 30, 7] 1) (example_window\<lparr>memory := [10, 20, 30, 7], write_head := 4\<rparr>) =
     (Inr 1, example_window\<lparr>memory := [10, 20, 30, 7], write_head := 4, read_head := 2\<rparr>)"
  using write_then_read [of example_window "[7]"]
  by (simp add: example_window_def bounds_ok_def block_ok_def PTRDIFF_MAX_def wsize_def rsize_def
      produce_def produced_def consume_def consumed_def
      write_bytes_def handed_def within_def getAvailableWriteSpace_def getAvailableReadSpace_def
      slice_def store_at_def Let_def word_sless_alt)

subsection \<open>C8: the check after packing inside \<^verbatim>\<open>ensureCapacity\<close>\<close>

text \<open>
  Claim C8. \<^verbatim>\<open>ensureCapacity\<close> never throws its "expecting pack to free up enough bytes"
  error, on any window and for any \<open>n\<close>: when the tail is shorter than \<open>n\<close> but the tail and
  the consumed prefix together hold \<open>n\<close> bytes, the tail space after the internal \<^verbatim>\<open>pack\<close>
  is at least \<open>n\<close>. On an unlocked well-formed window with
  \<open>capacity - write_head < n \<le> capacity - write_head + read_head\<close> the call returns the
  tail space after packing.
\<close>

theorem pack_branch_never_fails:
  "(\<forall>r p'. ensureCapacity heap p n = Some (r, p') \<longrightarrow>
           r \<noteq> Inl (Logic_error Pack_insufficient)) \<and>
   (\<forall>b p1. \<not> locked p \<and> wsize p < n \<and> n \<le> wsize p + read_head p \<and> pack p = (Inr b, p1) \<longrightarrow>
           n \<le> wsize p1) \<and>
   (\<not> locked p \<and> bounds_ok p \<and> block_ok p \<and>
    unat (wsize p) < unat n \<and> unat n \<le> unat (wsize p) + unat (read_head p) \<longrightarrow>
      (\<exists>b p1. pack p = (Inr b, p1) \<and> n \<le> wsize p1 \<and>
              ensureCapacity heap p n = Some (Inr (wsize p1), p1)))"
proof (intro conjI allI impI)
  fix r p' assume e: "ensureCapacity heap p n = Some (r, p')"
  show "r \<noteq> Inl (Logic_error Pack_insufficient)"
  proof (cases "locked p")
    case True
    with e show ?thesis by (auto simp add: ensureCapacity_def)
  next
    case unlocked: False
    show ?thesis
    proof (cases "n \<le> buffer_size p - write_head p")
      case True
      with e unlocked show ?thesis by (auto simp add: ensureCapacity_def Let_def)
    next
      case A: False
      show ?thesis
      proof (cases "n \<le> buffer_size p - write_head p + read_head p")
        case B: True
        obtain r1 p1 where pk: "pack p = (r1, p1)" by (cases "pack p")
        show ?thesis
        proof (cases r1)
          case (Inl f)
          with pk pack_no_insufficient[of p] have "f \<noteq> Logic_error Pack_insufficient" by auto
          with e unlocked A B pk Inl show ?thesis
            by (auto simp add: ensureCapacity_def Let_def)
        next
          case (Inr b)
          with pk have "wsize p1 = wsize p + read_head p" by (simp add: pack_wsize)
          with B have "\<not> wsize p1 < n" by (simp add: wsize_def not_less)
          with e unlocked A B pk Inr show ?thesis
            by (auto simp add: ensureCapacity_def Let_def)
        qed
      next
        case C: False
        from e unlocked A C obtain c where "grow heap p c = (r, p')"
          by (auto simp add: ensureCapacity_def Let_def split: option.splits)
        with grow_no_logic_error[of heap p c Pack_insufficient] show ?thesis by auto
      qed
    qed
  qed
next
  fix b p1
  assume a: "\<not> locked p \<and> wsize p < n \<and> n \<le> wsize p + read_head p \<and> pack p = (Inr b, p1)"
  then have "wsize p1 = wsize p + read_head p" by (simp add: pack_wsize)
  with a show "n \<le> wsize p1" by simp
next
  assume a: "\<not> locked p \<and> bounds_ok p \<and> block_ok p \<and>
    unat (wsize p) < unat n \<and> unat n \<le> unat (wsize p) + unat (read_head p)"
  then have wf: "bounds_ok p" "block_ok p" and ul: "\<not> locked p" by simp_all
  from a have A: "\<not> n \<le> buffer_size p - write_head p"
    by (simp add: word_le_nat_alt wsize_def)
  from a tail_plus_read(1)[OF wf] have B: "n \<le> buffer_size p - write_head p + read_head p"
    by (simp add: word_le_nat_alt)
  from pack_defined[OF ul wf] obtain b p1 where pk: "pack p = (Inr b, p1)" by blast
  then have w: "wsize p1 = wsize p + read_head p" by (rule pack_wsize)
  with B have enough: "n \<le> wsize p1" by (simp add: wsize_def)
  then have "\<not> wsize p1 < n" by (simp add: not_less)
  with ul A B pk have "ensureCapacity heap p n = Some (Inr (wsize p1), p1)"
    by (simp add: ensureCapacity_def Let_def)
  with pk enough show "\<exists>b p1. pack p = (Inr b, p1) \<and> n \<le> wsize p1 \<and>
              ensureCapacity heap p n = Some (Inr (wsize p1), p1)" by blast
qed

theorem pack_branch_never_fails_witness:
  "\<not> locked example_window \<and> wsize example_window < 2 \<and>
   2 \<le> wsize example_window + read_head example_window \<and>
   unat (wsize example_window) < unat (2 :: size_t) \<and>
   unat (2 :: size_t) \<le> unat (wsize example_window) + unat (read_head example_window) \<and>
   bounds_ok example_window \<and> block_ok example_window \<and>
   pack example_window =
     (Inr False,
      \<lparr> memory = [20, 30, 30, 40], buffer_size = 4, write_head = 2, read_head = 0,
        locked = False, allocation_chunk_size = 512 \<rparr>) \<and>
   ensureCapacity zero_heap example_window 2 =
     Some (Inr 2,
           \<lparr> memory = [20, 30, 30, 40], buffer_size = 4, write_head = 2, read_head = 0,
             locked = False, allocation_chunk_size = 512 \<rparr>)"
  using pack_branch_never_fails [where p = example_window and n = 2 and heap = zero_heap]
  by (simp add: example_window_def bounds_ok_def block_ok_def PTRDIFF_MAX_def wsize_def
      ensureCapacity_def pack_def within_def memmove_front_def slice_def empty_pipe_def Let_def)

subsection \<open>C9: termination\<close>

text \<open>
  Claim C9. The claim is that \<^verbatim>\<open>ensureCapacity\<close> returns on every input. It does not: the
  loop compares \<open>count * allocation_chunk_size + tail_space + read_head\<close>, computed in
  \<^verbatim>\<open>size_t\<close>, with \<open>nbytes\<close>. On a fresh 512-byte window every value of the left side is a
  multiple of 512, so for \<open>nbytes = 2\<^sup>6\<^sup>4 - 1\<close> the comparison holds for every \<open>count\<close> and
  the loop never leaves.
\<close>

theorem ensureCapacity_size_max_diverges:
  "\<not> isl (Pipe zero_heap 512) \<and> \<not> locked (projr (Pipe zero_heap 512)) \<and>
   ensureCapacity zero_heap (projr (Pipe zero_heap 512)) 18446744073709551615 = None"
proof -
  have "count_loop 512 512 0 18446744073709551615 (1 :: size_t) = None"
    unfolding size_max by (rule count_loop_diverges) (rule even_below_max, simp_all)
  then show ?thesis
    unfolding Pipe_512
    by (simp add: ensureCapacity_def Let_def)
qed

subsection \<open>C10: callbacks that report more than their view\<close>

text \<open>
  Claim C10. On an unlocked well-formed window, a producer that returns a positive count
  larger than the writable view makes \<^verbatim>\<open>produce\<close> throw the logic error of \<^verbatim>\<open>produced\<close>,
  and a consumer that returns a positive count larger than the readable view makes
  \<^verbatim>\<open>consume\<close> throw the logic error of \<^verbatim>\<open>consumed\<close>; both offsets (and the capacity) are
  as before. A positive \<^verbatim>\<open>ssize_t\<close> is below \<open>2\<^sup>6\<^sup>3\<close> and so is the capacity, hence the sums
  do not wrap here.
\<close>

theorem callback_overrun_rejected:
  assumes "\<not> locked p" "bounds_ok p" "block_ok p"
  shows "(producer (getAvailableWriteSpace p) = (written, k) \<and> 0 <s k \<and>
            length (getAvailableWriteSpace p) < unat k \<longrightarrow>
          (\<exists>p'. produce producer p = (Inl (Logic_error Produced_exceeds), p') \<and>
                read_head p' = read_head p \<and> write_head p' = write_head p \<and>
                buffer_size p' = buffer_size p)) \<and>
         (0 <s consumer (getAvailableReadSpace p) \<and>
            length (getAvailableReadSpace p) < unat (consumer (getAvailableReadSpace p)) \<longrightarrow>
          consume consumer p = (Inl (Logic_error Consumed_exceeds), p))"
proof (intro conjI impI)
  note n = wf_nat[OF assms(2,3)]
  note v = views_within[OF assms(2,3)]
  assume a: "producer (getAvailableWriteSpace p) = (written, k) \<and> 0 <s k \<and>
            length (getAvailableWriteSpace p) < unat k"
  then have k: "unat k < 2 ^ 63" by (blast intro: positive_ssize)
  with n(2,4) have "unat (write_head p) + unat k < 2 ^ 64" by simp
  then have "unat (write_head p + k) = unat (write_head p) + unat k"
    by (simp add: unat_add_lem[THEN iffD1])
  moreover from a have "length (getAvailableWriteSpace p) < unat k" by blast
  with v(4) n(6) n(2) have "unat (buffer_size p) < unat (write_head p) + unat k"
    by linarith
  ultimately have over: "buffer_size p < write_head p + k" by (simp add: word_less_nat_alt)
  show "\<exists>p'. produce producer p = (Inl (Logic_error Produced_exceeds), p') \<and>
                read_head p' = read_head p \<and> write_head p' = write_head p \<and>
                buffer_size p' = buffer_size p"
    using assms(1) v(2) a over
    by (simp add: produce_def produced_def Let_def)
next
  note n = wf_nat[OF assms(2,3)]
  note v = views_within[OF assms(2,3)]
  assume a: "0 <s consumer (getAvailableReadSpace p) \<and>
            length (getAvailableReadSpace p) < unat (consumer (getAvailableReadSpace p))"
  define k where "k = consumer (getAvailableReadSpace p)"
  from a have k: "unat k < 2 ^ 63" unfolding k_def by (blast intro: positive_ssize)
  with n(1,2,4) have "unat (read_head p) + unat k < 2 ^ 64" by simp
  then have "unat (read_head p + k) = unat (read_head p) + unat k"
    by (simp add: unat_add_lem[THEN iffD1])
  moreover from a have "length (getAvailableReadSpace p) < unat k" unfolding k_def by blast
  with v(3) n(5) n(1) have "unat (write_head p) < unat (read_head p) + unat k"
    by linarith
  ultimately have over: "write_head p < read_head p + k" by (simp add: word_less_nat_alt)
  show "consume consumer p = (Inl (Logic_error Consumed_exceeds), p)"
    using assms(1) v(1) a over
    by (simp add: consume_def consumed_def Let_def k_def)
qed

theorem callback_overrun_rejected_witness:
  "\<not> locked example_window \<and> bounds_ok example_window \<and> block_ok example_window \<and>
   write_bytes [7, 8] (getAvailableWriteSpace example_window) = ([7, 8], 2) \<and>
   0 <s (2 :: ssize_t) \<and> length (getAvailableWriteSpace example_window) < unat (2 :: ssize_t) \<and>
   produce (write_bytes [7, 8]) example_window =
     (Inl (Logic_error Produced_exceeds), example_window\<lparr>memory := [10, 20, 30, 7]\<rparr>) \<and>
   0 <s handed [20, 30] 5 (getAvailableReadSpace example_window) \<and>
   length (getAvailableReadSpace example_window) <
     unat (handed [20, 30] 5 (getAvailableReadSpace example_window)) \<and>
   consume (handed [20, 30] 5) example_window =
     (Inl (Logic_error Consumed_exceeds), example_window)"
  using callback_overrun_rejected
    [of example_window "write_bytes [7, 8]" "[7, 8]" 2 "handed [20, 30] 5"]
  by (simp add: example_window_def bounds_ok_def block_ok_def PTRDIFF_MAX_def wsize_def rsize_def
      produce_def produced_def consume_def consumed_def word_sless_alt
      write_bytes_def handed_def within_def getAvailableWriteSpace_def getAvailableReadSpace_def
      slice_def store_at_def Let_def word_sless_alt)

end
